theory Spec2Isabelle
  imports Complex_Main
begin

section \<open>Strings and the character tables\<close>

text \<open>
  A Python \<open>str\<close> is a sequence of Unicode code points, so a string is a list of
  natural numbers and its length counts code points.  \<open>lit\<close> turns an ASCII literal
  into that representation.
\<close>

type_synonym uchar = nat
type_synonym ustring = "nat list"

definition lit :: "string \<Rightarrow> ustring" where
  "lit s = map of_char s"

text \<open>
  The classes \<open>\w\<close> and \<open>\s\<close> of \<open>re\<close>, \<open>str.strip\<close> and \<open>str.lower\<close> are written
  out on the ASCII range.  Beyond it they are read from the Unicode character database of
  the interpreter, which is a parameter of the model: \<open>uni_alnum\<close> and \<open>uni_space\<close> are
  the alphanumeric and whitespace properties, and \<open>uni_lower s i\<close> is the full lowercase
  mapping of the code point at position \<open>i\<close> of \<open>s\<close> (it sees the whole string because
  the mapping of capital sigma depends on its neighbours).
\<close>

record ucd =
  uni_alnum :: "uchar \<Rightarrow> bool"
  uni_space :: "uchar \<Rightarrow> bool"
  uni_lower :: "ustring \<Rightarrow> nat \<Rightarrow> ustring"

definition ascii_space :: "uchar \<Rightarrow> bool" where
  "ascii_space c = ((9 \<le> c \<and> c \<le> 13) \<or> (28 \<le> c \<and> c \<le> 32))"

definition ascii_word :: "uchar \<Rightarrow> bool" where
  "ascii_word c = ((48 \<le> c \<and> c \<le> 57) \<or> (65 \<le> c \<and> c \<le> 90) \<or> c = 95 \<or> (97 \<le> c \<and> c \<le> 122))"

definition ascii_lower :: "uchar \<Rightarrow> uchar" where
  "ascii_lower c = (if 65 \<le> c \<and> c \<le> 90 then c + 32 else c)"

definition is_space :: "ucd \<Rightarrow> uchar \<Rightarrow> bool" where
  "is_space U c = (if c < 128 then ascii_space c else uni_space U c)"

definition is_word :: "ucd \<Rightarrow> uchar \<Rightarrow> bool" where
  "is_word U c = (if c < 128 then ascii_word c else uni_alnum U c)"

definition lower_at :: "ucd \<Rightarrow> ustring \<Rightarrow> nat \<Rightarrow> ustring" where
  "lower_at U s i = (if s ! i < 128 then [ascii_lower (s ! i)] else uni_lower U s i)"

definition py_lower :: "ucd \<Rightarrow> ustring \<Rightarrow> ustring" where
  "py_lower U s = concat (map (lower_at U s) [0..<length s])"

section \<open>Text normalization helpers\<close>

definition HELPER_PHRASES :: "ustring list" where
  "HELPER_PHRASES = map lit
    [''tell me about'', ''summary of'', ''give me the summary of'', ''short summary of'',
     ''what is'', [CHR ''w'', CHR ''h'', CHR ''a'', CHR ''t'', CHR 0x27, CHR ''s''], ''whats'',
     ''can you summarize'', ''verdict on'',
     ''who is the author of'', ''author of'', ''who wrote'', ''writer of'',
     ''how many pages in'', ''total pages of'', ''length of'', ''page count of'',
     ''number of pages in'', ''how long is'',
     ''rating of'', ''goodreads rating of'', ''average rating of'', ''how is'',
     ''what is the rating of'']"

definition replace_char :: "uchar \<Rightarrow> uchar \<Rightarrow> ustring \<Rightarrow> ustring" where
  "replace_char a b s = map (\<lambda>c. if c = a then b else c) s"

text \<open>\<open>_strip_smart_quotes\<close>: six single-character \<open>str.replace\<close> calls, in the source's order.\<close>

definition strip_smart_quotes :: "ustring \<Rightarrow> ustring" where
  "strip_smart_quotes s =
     replace_char 0x2014 0x2D (replace_char 0x2013 0x2D
       (replace_char 0x201D 0x22 (replace_char 0x201C 0x22
         (replace_char 0x2018 0x27 (replace_char 0x2019 0x27 s)))))"

text \<open>\<open>re.sub(r"[^\w\s]", " ", s)\<close>.\<close>

definition punct_to_space :: "ucd \<Rightarrow> ustring \<Rightarrow> ustring" where
  "punct_to_space U s = map (\<lambda>c. if is_word U c \<or> is_space U c then c else 32) s"

text \<open>\<open>re.sub(r"\s+", " ", s)\<close>: every maximal run of whitespace becomes one space.\<close>

function collapse_ws :: "ucd \<Rightarrow> ustring \<Rightarrow> ustring" where
  "collapse_ws U [] = []"
| "collapse_ws U (c # cs) =
     (if is_space U c then 32 # collapse_ws U (dropWhile (is_space U) cs)
      else c # collapse_ws U cs)"
  by pat_completeness auto
termination
  by (relation "measure (\<lambda>(U, s). length s)") (auto simp: less_Suc_eq_le length_dropWhile_le)

text \<open>\<open>str.strip()\<close>.\<close>

definition strip_ws :: "ucd \<Rightarrow> ustring \<Rightarrow> ustring" where
  "strip_ws U s = rev (dropWhile (is_space U) (rev (dropWhile (is_space U) s)))"

definition normalize_text :: "ucd \<Rightarrow> ustring \<Rightarrow> ustring" where
  "normalize_text U s =
     (if s = [] then []
      else strip_ws U (collapse_ws U (punct_to_space U (strip_smart_quotes (py_lower U s)))))"

text \<open>
  \<open>re.sub(r"^(the|a|an)\s+", "", s)\<close>.  The anchor allows one match, at the start; the
  alternatives are tried in the order written, and \<open>\s+\<close> takes the whole run of whitespace
  that follows.  \<open>article_match\<close> gives what is left after a match of one alternative.
\<close>

definition article_match :: "ucd \<Rightarrow> ustring \<Rightarrow> ustring \<Rightarrow> ustring option" where
  "article_match U art s =
     (let r = drop (length art) s
      in if take (length art) s = art \<and> r \<noteq> [] \<and> is_space U (hd r)
         then Some (dropWhile (is_space U) r) else None)"

definition strip_article :: "ucd \<Rightarrow> ustring \<Rightarrow> ustring" where
  "strip_article U s =
     (case article_match U (lit ''the'') s of Some r \<Rightarrow> r
      | None \<Rightarrow> (case article_match U (lit ''a'') s of Some r \<Rightarrow> r
      | None \<Rightarrow> (case article_match U (lit ''an'') s of Some r \<Rightarrow> r
      | None \<Rightarrow> s)))"

definition normalize_title :: "ucd \<Rightarrow> ustring \<Rightarrow> ustring" where
  "normalize_title U s = strip_article U (normalize_text U s)"

section \<open>Literal patterns between word boundaries\<close>

text \<open>
  Both regular expressions built at run time have the form \<open>\b\<close>, an escaped literal,
  \<open>\b\<close>.  \<open>\b\<close> holds at a position when exactly one of the characters before and after
  it is a word character, the ends of the string counting as non-word.  A scan carries the
  character before the current position in \<open>prev\<close>.
\<close>

definition word_opt :: "ucd \<Rightarrow> uchar option \<Rightarrow> bool" where
  "word_opt U co = (case co of None \<Rightarrow> False | Some c \<Rightarrow> is_word U c)"

definition first_opt :: "ustring \<Rightarrow> uchar option" where
  "first_opt s = (case s of [] \<Rightarrow> None | c # _ \<Rightarrow> Some c)"

definition boundary :: "ucd \<Rightarrow> uchar option \<Rightarrow> uchar option \<Rightarrow> bool" where
  "boundary U l r = (word_opt U l \<noteq> word_opt U r)"

definition match_at :: "ucd \<Rightarrow> ustring \<Rightarrow> uchar option \<Rightarrow> ustring \<Rightarrow> bool" where
  "match_at U p prev s =
     (take (length p) s = p
      \<and> boundary U prev (first_opt s)
      \<and> boundary U (if p = [] then prev else Some (last p)) (first_opt (drop (length p) s)))"

text \<open>\<open>re.search(r"\b" + re.escape(p) + r"\b", s)\<close> as a truth value.\<close>

fun re_search :: "ucd \<Rightarrow> ustring \<Rightarrow> uchar option \<Rightarrow> ustring \<Rightarrow> bool" where
  "re_search U p prev [] = match_at U p prev []"
| "re_search U p prev (c # cs) = (match_at U p prev (c # cs) \<or> re_search U p (Some c) cs)"

text \<open>
  \<open>re.sub(r"\b" + re.escape(p) + r"\b", "", s)\<close>: the leftmost match is cut out and the
  scan goes on behind it, the boundaries being those of the original string.  An empty
  \<open>p\<close> could only cut out empty matches, which leaves the string as it is.
\<close>

function re_remove :: "ucd \<Rightarrow> ustring \<Rightarrow> uchar option \<Rightarrow> ustring \<Rightarrow> ustring" where
  "re_remove U p prev [] = []"
| "re_remove U p prev (c # cs) =
     (if p \<noteq> [] \<and> match_at U p prev (c # cs)
      then re_remove U p (Some (last p)) (drop (length p) (c # cs))
      else c # re_remove U p (Some c) cs)"
  by pat_completeness auto
termination
  by (relation "measure (\<lambda>(U, p, prev, s). length s)") auto

definition clean_query_from_helpers :: "ucd \<Rightarrow> ustring \<Rightarrow> ustring" where
  "clean_query_from_helpers U message =
     strip_ws U (collapse_ws U
       (foldl (\<lambda>m p. re_remove U p None m) (strip_smart_quotes (py_lower U message)) HELPER_PHRASES))"

section \<open>Approximate matching (\<open>difflib.get_close_matches\<close>)\<close>

text \<open>
  \<open>get_close_matches(word, possibilities, n=1, cutoff=0.73)\<close> keeps the possibilities
  whose three similarity scores against \<open>word\<close> all reach the cutoff, pairs each with its
  \<open>ratio\<close> and returns the greatest pair under Python's tuple order (score first, then the
  string).  The three scores of \<open>SequenceMatcher\<close> are parameters; a score is a binary
  floating-point number, hence a rational, and \<open>cutoff\<close> is the exact value of the
  floating-point literal \<open>0.73\<close>.
\<close>

record seqmatcher =
  real_quick_ratio :: "ustring \<Rightarrow> ustring \<Rightarrow> rat"
  quick_ratio :: "ustring \<Rightarrow> ustring \<Rightarrow> rat"
  ratio :: "ustring \<Rightarrow> ustring \<Rightarrow> rat"

definition cutoff :: rat where
  "cutoff = 1643813863990231 / 2251799813685248"

fun str_gt :: "ustring \<Rightarrow> ustring \<Rightarrow> bool" where
  "str_gt [] ys = False"
| "str_gt (x # xs) [] = True"
| "str_gt (x # xs) (y # ys) = (y < x \<or> (x = y \<and> str_gt xs ys))"

definition tuple_gt :: "rat \<times> ustring \<Rightarrow> rat \<times> ustring \<Rightarrow> bool" where
  "tuple_gt p q = (if fst p \<noteq> fst q then fst q < fst p else str_gt (snd p) (snd q))"

definition py_max :: "(rat \<times> ustring) list \<Rightarrow> (rat \<times> ustring) option" where
  "py_max xs = (case xs of [] \<Rightarrow> None
                | x # rest \<Rightarrow> Some (foldl (\<lambda>m y. if tuple_gt y m then y else m) x rest))"

definition close_enough :: "seqmatcher \<Rightarrow> ustring \<Rightarrow> ustring \<Rightarrow> bool" where
  "close_enough D word x =
     (cutoff \<le> real_quick_ratio D x word \<and> cutoff \<le> quick_ratio D x word \<and> cutoff \<le> ratio D x word)"

definition get_close_matches :: "seqmatcher \<Rightarrow> ustring \<Rightarrow> ustring list \<Rightarrow> ustring list" where
  "get_close_matches D word possibilities =
     (case py_max (map (\<lambda>x. (ratio D x word, x)) (filter (close_enough D word) possibilities)) of
        None \<Rightarrow> []
      | Some (score, x) \<Rightarrow> [x])"

section \<open>The catalog and the book finder\<close>

text \<open>
  A catalog entry is a JSON object.  \<open>title\<close> is read with \<open>b["title"]\<close> when the index is
  built, so every entry of a loaded catalog has it; the other fields may be absent.  A
  field holds the text that formatting its value gives.
\<close>

record book =
  title :: ustring
  summary :: "ustring option"
  verdict :: "ustring option"
  author :: "ustring option"
  pages :: "ustring option"
  rating :: "ustring option"

datatype error = IndexError | KeyError | ValueError

definition BOOK_TITLE_INDEX :: "ucd \<Rightarrow> book list \<Rightarrow> (ustring \<times> book) list" where
  "BOOK_TITLE_INDEX U books = map (\<lambda>b. (normalize_title U (title b), b)) books"

text \<open>Tier 1: the loop that fills \<open>candidates\<close>, then the descending stable sort on the length.\<close>

definition containment_candidates :: "ucd \<Rightarrow> (ustring \<times> book) list \<Rightarrow> ustring \<Rightarrow> (nat \<times> book) list" where
  "containment_candidates U idx msg_norm =
     map (\<lambda>(nt, b). (length nt, b)) (filter (\<lambda>(nt, b). nt \<noteq> [] \<and> re_search U nt None msg_norm) idx)"

definition sort_desc :: "(nat \<times> book) list \<Rightarrow> (nat \<times> book) list" where
  "sort_desc candidates = sort_key (\<lambda>x. - int (fst x)) candidates"

definition containment_tier :: "ucd \<Rightarrow> (ustring \<times> book) list \<Rightarrow> ustring \<Rightarrow> book option" where
  "containment_tier U idx msg_norm =
     (let candidates = containment_candidates U idx msg_norm
      in if candidates \<noteq> [] then Some (snd (hd (sort_desc candidates))) else None)"

text \<open>Tier 2: the first entry whose normalized title equals the message.\<close>

definition equality_tier :: "(ustring \<times> book) list \<Rightarrow> ustring \<Rightarrow> book option" where
  "equality_tier idx msg_norm = map_option snd (find (\<lambda>(nt, b). msg_norm = nt) idx)"

text \<open>
  Tiers 3 and 4 run the same lines on two queries: the best close match, then
  \<open>titles_norm.index\<close> (which raises \<open>ValueError\<close> for a string that is not in the list)
  and the entry at that position.
\<close>

fun list_index :: "'a list \<Rightarrow> 'a \<Rightarrow> nat option" where
  "list_index [] y = None"
| "list_index (x # xs) y = (if x = y then Some 0 else map_option Suc (list_index xs y))"

definition fuzzy_tier :: "seqmatcher \<Rightarrow> (ustring \<times> book) list \<Rightarrow> ustring \<Rightarrow> error + book option" where
  "fuzzy_tier D idx query =
     (let titles_norm = map fst idx
      in case get_close_matches D query titles_norm of
           [] \<Rightarrow> Inr None
         | m # _ \<Rightarrow> (case list_index titles_norm m of
                       None \<Rightarrow> Inl ValueError
                     | Some i \<Rightarrow> Inr (Some (snd (idx ! i)))))"

definition find_book_in_message :: "ucd \<Rightarrow> seqmatcher \<Rightarrow> book list \<Rightarrow> ustring \<Rightarrow> error + book option" where
  "find_book_in_message U D books message =
     (if message = [] then Inr None
      else let msg_norm = normalize_text U message
      in if msg_norm = [] then Inr None
      else let idx = BOOK_TITLE_INDEX U books
      in case containment_tier U idx msg_norm of
           Some b \<Rightarrow> Inr (Some b)
         | None \<Rightarrow> (case equality_tier idx msg_norm of
             Some b \<Rightarrow> Inr (Some b)
           | None \<Rightarrow> (case fuzzy_tier D idx msg_norm of
               Inl e \<Rightarrow> Inl e
             | Inr (Some b) \<Rightarrow> Inr (Some b)
             | Inr None \<Rightarrow> fuzzy_tier D idx (strip_article U msg_norm))))"

definition extract_book_from_input :: "ucd \<Rightarrow> seqmatcher \<Rightarrow> book list \<Rightarrow> ustring \<Rightarrow> error + book option" where
  "extract_book_from_input U D books user_input =
     find_book_in_message U D books (clean_query_from_helpers U user_input)"

section \<open>The response function and the request handler\<close>

text \<open>
  What \<open>get_bot_response\<close> reads besides its argument: the character tables, the
  sequence matcher, the fitted classifier (\<open>predict\<close> gives the label of a message), the
  greeting responses of the intents table and the catalog.  The number \<open>rnd\<close> is the draw
  of the random generator for the call, and the memory cell \<open>last_book["book"]\<close> is passed
  in and returned.  \<open>None\<close> as a response is Python's \<open>None\<close>.
\<close>

record env =
  chars :: ucd
  matcher :: seqmatcher
  predict :: "ustring \<Rightarrow> ustring"
  greetings :: "ustring list"
  books_data :: "book list"

text \<open>\<open>random.choice\<close> raises \<open>IndexError\<close> on an empty sequence.\<close>

definition choice :: "'a list \<Rightarrow> nat \<Rightarrow> error + 'a" where
  "choice xs rnd = (if xs = [] then Inl IndexError else Inr (xs ! (rnd mod length xs)))"

definition get_or :: "ustring option \<Rightarrow> string \<Rightarrow> ustring" where
  "get_or field dflt = (case field of None \<Rightarrow> lit dflt | Some v \<Rightarrow> v)"

definition book_intents :: "ustring list" where
  "book_intents = map lit [''summary'', ''verdict'', ''author'', ''pages'', ''rating'']"

text \<open>
  The inner chain of the book branch, with the \<open>return\<close> that follows it.  An entry
  always has its title, so the defaults for the title are never used.
\<close>

definition book_reply :: "ustring \<Rightarrow> book \<Rightarrow> ustring" where
  "book_reply intent b =
     (if intent = lit ''summary'' then
        [0x1F4D6, 32] @ title b @ [32, 0x2014, 32] @ get_or (summary b) ''No summary available''
      else if intent = lit ''verdict'' then
        [0x2705] @ lit '' Verdict on '' @ title b @ lit '': '' @ get_or (verdict b) ''No verdict available''
      else if intent = lit ''author'' then
        [0x270D, 0xFE0F] @ lit '' Author of '' @ title b @ lit '' is '' @ get_or (author b) ''Unknown Author'' @ lit ''.''
      else if intent = lit ''pages'' then
        [0x1F4C4, 32] @ title b @ lit '' has '' @ get_or (pages b) ''Unknown number of'' @ lit ''.''
      else if intent = lit ''rating'' then
        [0x2B50] @ lit '' Rating of '' @ title b @ lit '': '' @ get_or (rating b) ''No rating available''
      else lit ''Sorry, I couldn'' @ [0x2019] @ lit ''t find details for '' @ [0x27] @ title b @ [0x27] @ lit ''.'')"

definition get_bot_response ::
    "env \<Rightarrow> nat \<Rightarrow> ustring \<Rightarrow> book option \<Rightarrow> (error + ustring option) \<times> book option" where
  "get_bot_response E rnd user_input last_book =
     (let predicted_intent = predict E user_input
      in if predicted_intent = lit ''greeting'' then
           (Inr (Some (if greetings E \<noteq> [] then greetings E ! (rnd mod length (greetings E))
                       else lit ''Hello! How can I help you today?'')), last_book)
         else if predicted_intent = lit ''random_book'' then
           (case choice (books_data E) rnd of
              Inl e \<Rightarrow> (Inl e, last_book)
            | Inr b \<Rightarrow> (case summary b of
                          None \<Rightarrow> (Inl KeyError, Some b)
                        | Some s \<Rightarrow> (Inr (Some ([0x1F4D6] @ lit '' Random pick: '' @ title b
                                                 @ [32, 0x2014, 32] @ s)), Some b)))
         else if predicted_intent \<in> set book_intents then
           (case extract_book_from_input (chars E) (matcher E) (books_data E) user_input of
              Inl e \<Rightarrow> (Inl e, last_book)
            | Inr (Some b) \<Rightarrow> (Inr (Some (book_reply predicted_intent b)), Some b)
            | Inr None \<Rightarrow> (case last_book of
                             None \<Rightarrow> (Inr (Some (lit ''Please mention the book title.'')), last_book)
                           | Some b \<Rightarrow> (Inr (Some (book_reply predicted_intent b)), last_book)))
         else (Inr None, last_book))"

text \<open>
  \<open>get_bot_reply\<close> of the web application, from the call of \<open>get_bot_response\<close> on: the
  value of the \<open>response\<close> key of the JSON body and the HTTP status, with the memory cell.
\<close>

definition server_error_text :: ustring where
  "server_error_text = [0x26A0, 0xFE0F] @ lit '' Server error, check console.''"

definition get_bot_reply ::
    "env \<Rightarrow> nat \<Rightarrow> ustring \<Rightarrow> book option \<Rightarrow> (ustring option \<times> nat) \<times> book option" where
  "get_bot_reply E rnd user_input last_book =
     (case get_bot_response E rnd user_input last_book of
        (Inr response, mem) \<Rightarrow> ((response, 200), mem)
      | (Inl e, mem) \<Rightarrow> ((Some server_error_text, 500), mem))"

section \<open>Notions the properties are stated with\<close>

text \<open>
  A literal occurs in a string between word boundaries when it is the substring at some
  position and \<open>\b\<close> holds just before and just after it.
\<close>

definition char_before :: "ustring \<Rightarrow> nat \<Rightarrow> uchar option" where
  "char_before s i = (if i = 0 then None else Some (s ! (i - 1)))"

definition char_at :: "ustring \<Rightarrow> nat \<Rightarrow> uchar option" where
  "char_at s i = (if i < length s then Some (s ! i) else None)"

definition occurs_at :: "ucd \<Rightarrow> ustring \<Rightarrow> ustring \<Rightarrow> nat \<Rightarrow> bool" where
  "occurs_at U p s i =
     (i + length p \<le> length s \<and> take (length p) (drop i s) = p
      \<and> boundary U (char_before s i) (char_at s i)
      \<and> boundary U (char_before s (i + length p)) (char_at s (i + length p)))"

definition occurs_word_bounded :: "ucd \<Rightarrow> ustring \<Rightarrow> ustring \<Rightarrow> bool" where
  "occurs_word_bounded U p s = (\<exists>i \<in> set [0..<Suc (length s)]. occurs_at U p s i)"

text \<open>The entries whose non-empty normalized title occurs in the message, in catalog order.\<close>

definition title_matches :: "ucd \<Rightarrow> (ustring \<times> book) list \<Rightarrow> ustring \<Rightarrow> (ustring \<times> book) list" where
  "title_matches U idx msg_norm =
     filter (\<lambda>(nt, b). nt \<noteq> [] \<and> occurs_word_bounded U nt msg_norm) idx"

text \<open>A string begins with a leading article when \<open>the\<close>, \<open>a\<close> or \<open>an\<close> is followed by whitespace.\<close>

definition starts_with_article :: "ucd \<Rightarrow> ustring \<Rightarrow> bool" where
  "starts_with_article U s =
     (\<exists>art \<in> set (map lit [''the'', ''a'', ''an'']).
        length art < length s \<and> take (length art) s = art \<and> is_space U (s ! length art))"

text \<open>The book finder without its last tier, to compare with.\<close>

definition find_book_without_article_tier ::
    "ucd \<Rightarrow> seqmatcher \<Rightarrow> book list \<Rightarrow> ustring \<Rightarrow> error + book option" where
  "find_book_without_article_tier U D books message =
     (if message = [] then Inr None
      else let msg_norm = normalize_text U message
      in if msg_norm = [] then Inr None
      else let idx = BOOK_TITLE_INDEX U books
      in case containment_tier U idx msg_norm of
           Some b \<Rightarrow> Inr (Some b)
         | None \<Rightarrow> (case equality_tier idx msg_norm of
             Some b \<Rightarrow> Inr (Some b)
           | None \<Rightarrow> fuzzy_tier D idx msg_norm))"

text \<open>
  Lowercasing is stable when every code point that the lowercase mapping of a non-ASCII
  code point produces is its own lowercase mapping, wherever it stands.  The character
  database of CPython has this property.
\<close>

definition lower_fixed :: "ucd \<Rightarrow> uchar \<Rightarrow> bool" where
  "lower_fixed U d =
     (if d < 128 then ascii_lower d = d
      else \<forall>t j. j < length t \<and> t ! j = d \<longrightarrow> uni_lower U t j = [d])"

definition lower_stable :: "ucd \<Rightarrow> bool" where
  "lower_stable U =
     (\<forall>s i. i < length s \<and> 128 \<le> s ! i \<longrightarrow> (\<forall>d \<in> set (uni_lower U s i). lower_fixed U d))"

text \<open>
  The shape of a string that \<open>collapse_ws\<close> leaves alone: its only whitespace character is
  the space, and no space is followed by whitespace.
\<close>

fun single_spaced :: "ucd \<Rightarrow> ustring \<Rightarrow> bool" where
  "single_spaced U [] = True"
| "single_spaced U (c # cs) =
     ((if is_space U c then c = 32 \<and> (cs = [] \<or> \<not> is_space U (hd cs)) else True)
      \<and> single_spaced U cs)"

definition smart_quotes :: "uchar set" where
  "smart_quotes = {0x2019, 0x2018, 0x201C, 0x201D, 0x2013, 0x2014}"

text \<open>The memory cell holds nothing or an entry of the catalog.\<close>

definition memory_ok :: "env \<Rightarrow> book option \<Rightarrow> bool" where
  "memory_ok E mem = (case mem of None \<Rightarrow> True | Some b \<Rightarrow> b \<in> set (books_data E))"

text \<open>The memory cell after a sequence of calls, each with its random draw and its message.\<close>

fun memory_after :: "env \<Rightarrow> (nat \<times> ustring) list \<Rightarrow> book option \<Rightarrow> book option" where
  "memory_after E [] mem = mem"
| "memory_after E ((rnd, msg) # calls) mem =
     memory_after E calls (snd (get_bot_response E rnd msg mem))"

definition handled_intents :: "ustring list" where
  "handled_intents = map lit [''greeting'', ''random_book''] @ book_intents"

text \<open>
  Two instances to run the model on ASCII inputs: a character database with nothing beyond
  ASCII, and a matcher whose three scores are the length bound \<open>2 * min la lb / (la + lb)\<close>.
\<close>

definition ascii_only :: ucd where
  "ascii_only = \<lparr>uni_alnum = (\<lambda>c. False), uni_space = (\<lambda>c. False), uni_lower = (\<lambda>s i. [s ! i])\<rparr>"

definition length_score :: "ustring \<Rightarrow> ustring \<Rightarrow> rat" where
  "length_score a b =
     (if length a + length b = 0 then 1
      else 2 * of_nat (min (length a) (length b)) / of_nat (length a + length b))"

definition length_matcher :: seqmatcher where
  "length_matcher = \<lparr>real_quick_ratio = length_score, quick_ratio = length_score, ratio = length_score\<rparr>"

text \<open>A small catalog and an environment whose classifier always gives one label.\<close>

definition sample_book :: "string \<Rightarrow> book" where
  "sample_book t = \<lparr>title = lit t, summary = Some (lit ''A summary.''), verdict = None,
                     author = None, pages = None, rating = None\<rparr>"

definition sample_env :: "string \<Rightarrow> env" where
  "sample_env label =
     \<lparr>chars = ascii_only, matcher = length_matcher, predict = (\<lambda>m. lit label), greetings = [],
      books_data = [sample_book ''It'', sample_book ''It Ends with Us'', sample_book ''Dune'']\<rparr>"

section \<open>Facts about the approximate matcher\<close>

lemma list_index_Some: "list_index xs y = Some i \<Longrightarrow> i < length xs \<and> xs ! i = y"
  by (induction xs arbitrary: i) (auto split: if_splits)

lemma list_index_None: "list_index xs y = None \<Longrightarrow> y \<notin> set xs"
  by (induction xs) (auto split: if_splits)

lemma foldl_max_mem: "foldl (\<lambda>m y. if tuple_gt y m then y else m) x rest \<in> set (x # rest)"
  by (induction rest arbitrary: x) (auto split: if_splits)

lemma tuple_gt_fst: "tuple_gt y m \<Longrightarrow> fst m \<le> fst y"
  by (auto simp: tuple_gt_def split: if_splits)

lemma not_tuple_gt_fst: "\<not> tuple_gt y m \<Longrightarrow> fst y \<le> fst m"
  by (auto simp: tuple_gt_def split: if_splits)

lemma foldl_max_ge_start: "fst x \<le> fst (foldl (\<lambda>m y. if tuple_gt y m then y else m) x rest)"
proof (induction rest arbitrary: x)
  case Nil
  then show ?case by simp
next
  case (Cons y rest)
  show ?case
  proof (cases "tuple_gt y x")
    case True
    have "fst x \<le> fst y" using True by (rule tuple_gt_fst)
    also have "fst y \<le> fst (foldl (\<lambda>m y. if tuple_gt y m then y else m) y rest)" by (rule Cons.IH)
    finally show ?thesis using True by simp
  next
    case False
    then show ?thesis using Cons.IH [of x] by simp
  qed
qed

lemma foldl_max_best:
  "z \<in> set (x # rest) \<Longrightarrow> fst z \<le> fst (foldl (\<lambda>m y. if tuple_gt y m then y else m) x rest)"
proof (induction rest arbitrary: x)
  case Nil
  then show ?case by simp
next
  case (Cons y rest)
  let ?f = "\<lambda>m y. if tuple_gt y m then y else m"
  show ?case
  proof (cases "tuple_gt y x")
    case True
    have le: "fst x \<le> fst y" using True by (rule tuple_gt_fst)
    have "fst z \<le> fst (foldl ?f y rest)"
    proof (cases "z = x")
      case True
      have "fst y \<le> fst (foldl ?f y rest)" by (rule foldl_max_ge_start)
      then show ?thesis using le True by simp
    next
      case False
      then have "z \<in> set (y # rest)" using Cons.prems by auto
      then show ?thesis by (rule Cons.IH)
    qed
    then show ?thesis using True by simp
  next
    case False
    have le: "fst y \<le> fst x" using False by (rule not_tuple_gt_fst)
    have "fst z \<le> fst (foldl ?f x rest)"
    proof (cases "z = y")
      case True
      have "fst x \<le> fst (foldl ?f x rest)" by (rule foldl_max_ge_start)
      then show ?thesis using le True by simp
    next
      case False
      then have "z \<in> set (x # rest)" using Cons.prems by auto
      then show ?thesis by (rule Cons.IH)
    qed
    then show ?thesis using False by simp
  qed
qed

lemma py_max_None: "(py_max xs = None) = (xs = [])"
  by (simp add: py_max_def split: list.splits)

lemma py_max_mem: "py_max xs = Some m \<Longrightarrow> m \<in> set xs"
  using foldl_max_mem by (auto simp: py_max_def split: list.splits)

lemma py_max_best: "py_max xs = Some m \<Longrightarrow> z \<in> set xs \<Longrightarrow> fst z \<le> fst m"
proof (cases xs)
  case Nil
  assume "z \<in> set xs"
  with Nil show ?thesis by simp
next
  case (Cons x rest)
  assume "py_max xs = Some m" and z: "z \<in> set xs"
  then have "m = foldl (\<lambda>m y. if tuple_gt y m then y else m) x rest"
    using Cons by (simp add: py_max_def)
  moreover have "z \<in> set (x # rest)" using z Cons by simp
  ultimately show ?thesis using foldl_max_best by blast
qed

lemma get_close_matches_empty:
  "get_close_matches D w ps = [] \<Longrightarrow> x \<in> set ps \<Longrightarrow> \<not> close_enough D w x"
  by (auto simp: get_close_matches_def py_max_None filter_empty_conv split: option.splits prod.splits)

lemma get_close_matches_best:
  assumes "get_close_matches D w ps = m # ms"
  shows "ms = [] \<and> m \<in> set ps \<and> close_enough D w m
         \<and> (\<forall>y \<in> set ps. close_enough D w y \<longrightarrow> ratio D y w \<le> ratio D m w)"
proof -
  let ?scored = "map (\<lambda>x. (ratio D x w, x)) (filter (close_enough D w) ps)"
  from assms obtain sc where mx: "py_max ?scored = Some (sc, m)" and ms: "ms = []"
    by (auto simp: get_close_matches_def split: option.splits prod.splits)
  from py_max_mem [OF mx] have mem: "m \<in> set ps" "close_enough D w m" "sc = ratio D m w"
    by auto
  have "ratio D y w \<le> ratio D m w" if "y \<in> set ps" "close_enough D w y" for y
  proof -
    from that have "(ratio D y w, y) \<in> set ?scored" by auto
    from py_max_best [OF mx this] show ?thesis using mem by simp
  qed
  with ms mem show ?thesis by blast
qed

lemma fuzzy_tier_None:
  "fuzzy_tier D idx q = Inr None \<Longrightarrow> (nt, b) \<in> set idx \<Longrightarrow> \<not> close_enough D q nt"
proof -
  assume a: "fuzzy_tier D idx q = Inr None" and m: "(nt, b) \<in> set idx"
  have "get_close_matches D q (map fst idx) = []"
    using a by (auto simp: fuzzy_tier_def Let_def split: list.splits option.splits)
  moreover have "nt \<in> set (map fst idx)" using m by force
  ultimately show ?thesis by (rule get_close_matches_empty)
qed

lemma fuzzy_tier_Some:
  assumes "fuzzy_tier D idx q = Inr (Some b)"
  shows "\<exists>nt. (nt, b) \<in> set idx \<and> close_enough D q nt
           \<and> (\<forall>(nt', b') \<in> set idx. close_enough D q nt' \<longrightarrow> ratio D nt' q \<le> ratio D nt q)"
proof -
  from assms obtain m ms i where g: "get_close_matches D q (map fst idx) = m # ms"
    and li: "list_index (map fst idx) m = Some i" and b: "b = snd (idx ! i)"
    by (auto simp: fuzzy_tier_def Let_def split: list.splits option.splits)
  from list_index_Some [OF li] have i: "i < length idx" "fst (idx ! i) = m" by auto
  then have mem: "(m, b) \<in> set idx" using b by (metis nth_mem prod.collapse)
  from get_close_matches_best [OF g]
  have ce: "close_enough D q m"
    and best: "\<forall>y \<in> set (map fst idx). close_enough D q y \<longrightarrow> ratio D y q \<le> ratio D m q"
    by auto
  have "\<forall>(nt', b') \<in> set idx. close_enough D q nt' \<longrightarrow> ratio D nt' q \<le> ratio D m q"
    using best by force
  with mem ce show ?thesis by blast
qed

lemma fuzzy_tier_no_error: "fuzzy_tier D idx q \<noteq> Inl e"
proof
  assume a: "fuzzy_tier D idx q = Inl e"
  then obtain m ms where g: "get_close_matches D q (map fst idx) = m # ms"
    and li: "list_index (map fst idx) m = None"
    by (auto simp: fuzzy_tier_def Let_def split: list.splits option.splits)
  from get_close_matches_best [OF g] have "m \<in> set (map fst idx)" by simp
  with list_index_None [OF li] show False by simp
qed

section \<open>Facts about the book finder and the memory cell\<close>

lemma index_books: "(nt, b) \<in> set (BOOK_TITLE_INDEX U books) \<Longrightarrow> b \<in> set books \<and> nt = normalize_title U (title b)"
  by (auto simp: BOOK_TITLE_INDEX_def)

lemma sort_desc_hd_mem: "cs \<noteq> [] \<Longrightarrow> hd (sort_desc cs) \<in> set cs"
proof -
  assume "cs \<noteq> []"
  then have "length (sort_desc cs) \<noteq> 0" by (simp add: sort_desc_def)
  then have "sort_desc cs \<noteq> []" by auto
  then have "hd (sort_desc cs) \<in> set (sort_desc cs)" by (rule hd_in_set)
  then show ?thesis by (simp add: sort_desc_def)
qed

lemma containment_candidates_mem:
  "(n, b) \<in> set (containment_candidates U idx m) \<Longrightarrow>
     \<exists>nt. (nt, b) \<in> set idx \<and> nt \<noteq> [] \<and> n = length nt \<and> re_search U nt None m"
  by (auto simp: containment_candidates_def)

lemma containment_tier_mem:
  assumes "containment_tier U idx m = Some b"
  shows "\<exists>nt. (nt, b) \<in> set idx \<and> nt \<noteq> [] \<and> re_search U nt None m"
proof -
  let ?cs = "containment_candidates U idx m"
  from assms have ne: "?cs \<noteq> []" and b: "b = snd (hd (sort_desc ?cs))"
    by (auto simp: containment_tier_def Let_def split: if_splits)
  from sort_desc_hd_mem [OF ne] have "(fst (hd (sort_desc ?cs)), b) \<in> set ?cs"
    using b by simp
  from containment_candidates_mem [OF this] show ?thesis by blast
qed

lemma find_SomeD: "find P xs = Some p \<Longrightarrow> p \<in> set xs \<and> P p"
  by (induction xs) (auto split: if_splits)

lemma equality_tier_mem:
  assumes "equality_tier idx m = Some b"
  shows "(m, b) \<in> set idx"
proof -
  from assms obtain p where f: "find (\<lambda>(nt, b). m = nt) idx = Some p" and b: "b = snd p"
    by (auto simp: equality_tier_def)
  from find_SomeD [OF f] have "p \<in> set idx \<and> m = fst p"
    by (auto split: prod.splits)
  with b show ?thesis by (metis prod.collapse)
qed

lemma find_book_no_error: "find_book_in_message U D books message \<noteq> Inl e"
  using fuzzy_tier_no_error
  by (auto simp: find_book_in_message_def Let_def split: option.splits sum.splits)

lemma find_book_mem:
  assumes "find_book_in_message U D books message = Inr (Some b)"
  shows "b \<in> set books"
proof -
  let ?idx = "BOOK_TITLE_INDEX U books"
  let ?m = "normalize_text U message"
  from assms consider
      "containment_tier U ?idx ?m = Some b"
    | "equality_tier ?idx ?m = Some b"
    | "fuzzy_tier D ?idx ?m = Inr (Some b)"
    | "fuzzy_tier D ?idx (strip_article U ?m) = Inr (Some b)"
    by (auto simp: find_book_in_message_def Let_def split: if_splits option.splits sum.splits)
  then have "\<exists>nt. (nt, b) \<in> set ?idx"
  proof cases
    case 1
    from containment_tier_mem [OF 1] show ?thesis by blast
  next
    case 2
    from equality_tier_mem [OF 2] show ?thesis by blast
  next
    case 3
    from fuzzy_tier_Some [OF 3] show ?thesis by blast
  next
    case 4
    from fuzzy_tier_Some [OF 4] show ?thesis by blast
  qed
  then show ?thesis using index_books by blast
qed

lemma extract_cases:
  "extract_book_from_input U D books msg = Inr None
   \<or> (\<exists>b \<in> set books. extract_book_from_input U D books msg = Inr (Some b))"
proof (cases "extract_book_from_input U D books msg")
  case (Inl e)
  then show ?thesis using find_book_no_error by (simp add: extract_book_from_input_def)
next
  case (Inr r)
  then show ?thesis using find_book_mem by (cases r) (auto simp: extract_book_from_input_def)
qed

lemma book_intent_not_other:
  "i \<in> set book_intents \<Longrightarrow> i \<noteq> lit ''greeting'' \<and> i \<noteq> lit ''random_book''"
  by (auto simp: book_intents_def lit_def)

lemma choice_mem: "choice xs rnd = Inr x \<Longrightarrow> x \<in> set xs"
  by (auto simp: choice_def split: if_splits)

lemma get_bot_response_memory_ok:
  assumes "memory_ok E mem"
  shows "memory_ok E (snd (get_bot_response E rnd msg mem))"
proof -
  let ?ex = "extract_book_from_input (chars E) (matcher E) (books_data E) msg"
  from extract_cases [of "chars E" "matcher E" "books_data E" msg]
  consider "?ex = Inr None" | b where "b \<in> set (books_data E)" "?ex = Inr (Some b)" by blast
  then show ?thesis
  proof cases
    case 1
    then show ?thesis using assms choice_mem [of "books_data E" rnd]
      by (auto simp: get_bot_response_def Let_def memory_ok_def split: sum.splits option.splits)
  next
    case 2
    then show ?thesis using assms choice_mem [of "books_data E" rnd]
      by (auto simp: get_bot_response_def Let_def memory_ok_def split: sum.splits option.splits)
  qed
qed

lemma memory_after_ok: "memory_ok E mem \<Longrightarrow> memory_ok E (memory_after E calls mem)"
proof (induction calls arbitrary: mem)
  case Nil
  then show ?case by simp
next
  case (Cons c calls)
  obtain rnd msg where c: "c = (rnd, msg)" by (cases c)
  have "memory_ok E (snd (get_bot_response E rnd msg mem))"
    using Cons.prems by (rule get_bot_response_memory_ok)
  then show ?case using c Cons.IH by simp
qed

section \<open>The model on sample inputs\<close>

text \<open>
  The text functions are evaluated stage by stage.  On ASCII input the results do not
  depend on the character database or the matcher.
\<close>

lemmas text_defs = lit_def py_lower_def lower_at_def ascii_lower_def strip_smart_quotes_def
  replace_char_def match_at_def boundary_def word_opt_def first_opt_def is_word_def is_space_def
  ascii_word_def ascii_space_def strip_ws_def punct_to_space_def normalize_text_def
  normalize_title_def strip_article_def article_match_def clean_query_from_helpers_def
  HELPER_PHRASES_def upt_rec

lemma lit_Nil_iff: "(lit s = []) = (s = [])"
  by (simp add: lit_def)

lemma title_It: "normalize_title U (lit ''It'') = lit ''it''"
  by (simp add: text_defs)

lemma title_It_Ends: "normalize_title U (lit ''It Ends with Us'') = lit ''it ends with us''"
  by (simp add: text_defs)

lemma title_Dune: "normalize_title U (lit ''Dune'') = lit ''dune''"
  by (simp add: text_defs)

lemma sample_index:
  "BOOK_TITLE_INDEX U [sample_book ''It'', sample_book ''It Ends with Us'', sample_book ''Dune''] =
     [(lit ''it'', sample_book ''It''), (lit ''it ends with us'', sample_book ''It Ends with Us''),
      (lit ''dune'', sample_book ''Dune'')]"
  by (simp add: BOOK_TITLE_INDEX_def sample_book_def title_It title_It_Ends title_Dune)

lemma search_it_dune: "re_search U (lit ''it'') None (lit ''dune'') = False"
  by (simp add: text_defs)

lemma search_it_ends_dune: "re_search U (lit ''it ends with us'') None (lit ''dune'') = False"
  by (simp add: text_defs)

lemma search_dune_dune: "re_search U (lit ''dune'') None (lit ''dune'') = True"
  by (simp add: text_defs)

lemma sample_containment_dune:
  "containment_tier U [(lit ''it'', sample_book ''It''), (lit ''it ends with us'', sample_book ''It Ends with Us''),
      (lit ''dune'', sample_book ''Dune'')] (lit ''dune'') = Some (sample_book ''Dune'')"
  by (simp add: containment_tier_def containment_candidates_def sort_desc_def
      search_it_dune search_it_ends_dune search_dune_dune lit_Nil_iff)

lemma clean_who_wrote_dune: "clean_query_from_helpers U (lit ''who wrote Dune'') = lit ''dune''"
  by (simp add: text_defs)

lemma normalize_dune: "normalize_text U (lit ''dune'') = lit ''dune''"
  by (simp add: text_defs)

lemma extract_who_wrote_dune:
  "extract_book_from_input U D [sample_book ''It'', sample_book ''It Ends with Us'', sample_book ''Dune'']
     (lit ''who wrote Dune'') = Inr (Some (sample_book ''Dune''))"
  by (simp add: extract_book_from_input_def find_book_in_message_def clean_who_wrote_dune
      normalize_dune sample_index sample_containment_dune lit_Nil_iff)

lemma clean_question_mark: "clean_query_from_helpers U (lit ''?'') = lit ''?''"
  by (simp add: text_defs)

lemma normalize_question_mark: "normalize_text U (lit ''?'') = []"
  by (simp add: text_defs)

lemma extract_question_mark: "extract_book_from_input U D books (lit ''?'') = Inr None"
  by (simp add: extract_book_from_input_def find_book_in_message_def clean_question_mark
      normalize_question_mark lit_Nil_iff)

lemma sample_env_simps:
  "predict (sample_env l) m = lit l"
  "chars (sample_env l) = ascii_only"
  "matcher (sample_env l) = length_matcher"
  "books_data (sample_env l) = [sample_book ''It'', sample_book ''It Ends with Us'', sample_book ''Dune'']"
  "greetings (sample_env l) = []"
  by (simp_all add: sample_env_def)

lemma author_is_book_intent: "lit ''author'' \<in> set book_intents"
  by (simp add: book_intents_def)

section \<open>The response function: claims C2, C3, C8, C9\<close>

text \<open>Every label outside the handled ones falls through the whole chain.\<close>

lemma unhandled_label_gives_none:
  "predict E msg \<notin> set handled_intents \<Longrightarrow> get_bot_response E rnd msg mem = (Inr None, mem)"
  by (simp add: get_bot_response_def handled_intents_def Let_def)

text \<open>
  Claim C2 says that a label outside the handled set (greeting, random_book, summary,
  verdict, author, pages, rating) gets a fallback response string.  The chain of
  \<open>get_bot_response\<close> has no final \<open>else\<close>: with any catalog, tables and memory, a
  classifier that answers \<open>goodbye\<close> makes the function return Python's \<open>None\<close>, and the
  request handler sends \<open>null\<close> with status 200.
\<close>

theorem unhandled_intent_returns_nothing:
  "get_bot_response (E\<lparr>predict := \<lambda>m. lit ''goodbye''\<rparr>) rnd (lit ''bye'') mem = (Inr None, mem)
   \<and> get_bot_reply (E\<lparr>predict := \<lambda>m. lit ''goodbye''\<rparr>) rnd (lit ''bye'') mem = ((None, 200), mem)"
  by (simp add: get_bot_reply_def get_bot_response_def book_intents_def lit_def)

text \<open>
  Claim C3: for a book-requiring intent, an entry that \<open>extract_book_from_input\<close>
  resolves is stored in the memory cell and is the one the reply is made from; when it
  resolves none, the memory cell is left as it is and its entry is used; when that is
  empty too, the reply is \<open>Please mention the book title.\<close>  The extraction never raises.
\<close>

theorem book_intent_memory_policy:
  assumes "predict E msg \<in> set book_intents"
  shows "(\<forall>b. extract_book_from_input (chars E) (matcher E) (books_data E) msg = Inr (Some b) \<longrightarrow>
            get_bot_response E rnd msg mem = (Inr (Some (book_reply (predict E msg) b)), Some b))
       \<and> (extract_book_from_input (chars E) (matcher E) (books_data E) msg = Inr None \<longrightarrow>
            snd (get_bot_response E rnd msg mem) = mem
            \<and> (\<forall>b. mem = Some b \<longrightarrow>
                  fst (get_bot_response E rnd msg mem) = Inr (Some (book_reply (predict E msg) b)))
            \<and> (mem = None \<longrightarrow>
                  fst (get_bot_response E rnd msg mem) = Inr (Some (lit ''Please mention the book title.''))))
       \<and> (extract_book_from_input (chars E) (matcher E) (books_data E) msg = Inr None
            \<or> (\<exists>b. extract_book_from_input (chars E) (matcher E) (books_data E) msg = Inr (Some b)))"
proof -
  from book_intent_not_other [OF assms]
  have ne: "predict E msg \<noteq> lit ''greeting''" "predict E msg \<noteq> lit ''random_book''" by auto
  have a: "\<forall>b. extract_book_from_input (chars E) (matcher E) (books_data E) msg = Inr (Some b) \<longrightarrow>
            get_bot_response E rnd msg mem = (Inr (Some (book_reply (predict E msg) b)), Some b)"
    using ne assms by (simp add: get_bot_response_def Let_def)
  have b: "extract_book_from_input (chars E) (matcher E) (books_data E) msg = Inr None \<longrightarrow>
            snd (get_bot_response E rnd msg mem) = mem
            \<and> (\<forall>b. mem = Some b \<longrightarrow>
                  fst (get_bot_response E rnd msg mem) = Inr (Some (book_reply (predict E msg) b)))
            \<and> (mem = None \<longrightarrow>
                  fst (get_bot_response E rnd msg mem) = Inr (Some (lit ''Please mention the book title.'')))"
    using ne assms by (cases mem) (simp_all add: get_bot_response_def Let_def)
  have c: "extract_book_from_input (chars E) (matcher E) (books_data E) msg = Inr None
            \<or> (\<exists>b. extract_book_from_input (chars E) (matcher E) (books_data E) msg = Inr (Some b))"
    using extract_cases [of "chars E" "matcher E" "books_data E" msg] by blast
  from a b c show ?thesis by blast
qed

theorem book_intent_memory_policy_witness:
  "predict (sample_env ''author'') (lit ''who wrote Dune'') \<in> set book_intents
   \<and> get_bot_response (sample_env ''author'') 0 (lit ''who wrote Dune'') None
       = (Inr (Some (book_reply (lit ''author'') (sample_book ''Dune''))), Some (sample_book ''Dune''))
   \<and> predict (sample_env ''author'') (lit ''?'') \<in> set book_intents
   \<and> get_bot_response (sample_env ''author'') 0 (lit ''?'') (Some (sample_book ''Dune''))
       = (Inr (Some (book_reply (lit ''author'') (sample_book ''Dune''))), Some (sample_book ''Dune''))
   \<and> get_bot_response (sample_env ''author'') 0 (lit ''?'') None
       = (Inr (Some (lit ''Please mention the book title.'')), None)"
proof -
  have h1: "predict (sample_env ''author'') (lit ''who wrote Dune'') \<in> set book_intents"
    by (simp add: sample_env_simps author_is_book_intent)
  have h2: "predict (sample_env ''author'') (lit ''?'') \<in> set book_intents"
    by (simp add: sample_env_simps author_is_book_intent)
  from book_intent_memory_policy [OF h1, of 0 None]
       book_intent_memory_policy [OF h2, of 0 "Some (sample_book ''Dune'')"]
       book_intent_memory_policy [OF h2, of 0 None] h1 h2
  show ?thesis
    by (simp add: sample_env_simps extract_who_wrote_dune extract_question_mark prod_eq_iff)
qed

text \<open>
  Claim C8: when \<open>get_bot_response\<close> raises, the request handler answers with the generic
  error text and status 500; otherwise it passes the response on with status 200.  The
  handler returns a reply in both cases, the status is 500 exactly when an exception was
  raised, and what the call wrote to the memory cell before raising stays written.
\<close>

theorem exception_becomes_error_reply:
  "(fst (get_bot_response E rnd msg mem) = Inl e \<longrightarrow>
      fst (get_bot_reply E rnd msg mem) = (Some server_error_text, 500))
   \<and> (fst (get_bot_response E rnd msg mem) = Inr r \<longrightarrow>
      fst (get_bot_reply E rnd msg mem) = (r, 200))
   \<and> ((snd (fst (get_bot_reply E rnd msg mem)) = 500) =
        (\<exists>e'. fst (get_bot_response E rnd msg mem) = Inl e'))
   \<and> snd (get_bot_reply E rnd msg mem) = snd (get_bot_response E rnd msg mem)"
proof (cases "get_bot_response E rnd msg mem")
  case (Pair outcome mem')
  show ?thesis
  proof (cases outcome)
    case (Inl raised)
    with Pair show ?thesis by (simp add: get_bot_reply_def)
  next
    case (Inr response)
    with Pair show ?thesis by (simp add: get_bot_reply_def)
  qed
qed

theorem exception_becomes_error_reply_witness:
  "fst (get_bot_response ((sample_env ''random_book'')\<lparr>books_data := []\<rparr>) 0 (lit ''surprise me'') None) = Inl IndexError
   \<and> fst (get_bot_reply ((sample_env ''random_book'')\<lparr>books_data := []\<rparr>) 0 (lit ''surprise me'') None) = (Some server_error_text, 500)
   \<and> fst (get_bot_response (sample_env ''author'') 0 (lit ''?'') None) = Inr (Some (lit ''Please mention the book title.''))
   \<and> fst (get_bot_reply (sample_env ''author'') 0 (lit ''?'') None) = (Some (lit ''Please mention the book title.''), 200)"
proof -
  have h: "fst (get_bot_response ((sample_env ''random_book'')\<lparr>books_data := []\<rparr>) 0 (lit ''surprise me'') None) = Inl IndexError"
    by (simp add: get_bot_response_def sample_env_def choice_def lit_def)
  have g: "fst (get_bot_response (sample_env ''author'') 0 (lit ''?'') None) = Inr (Some (lit ''Please mention the book title.''))"
    by (simp add: get_bot_response_def Let_def sample_env_simps extract_question_mark author_is_book_intent)
       (simp add: lit_def)
  from exception_becomes_error_reply [of "(sample_env ''random_book'')\<lparr>books_data := []\<rparr>" 0 "lit ''surprise me''" None IndexError] h
       exception_becomes_error_reply [of "sample_env ''author''" 0 "lit ''?''" None _ "Some (lit ''Please mention the book title.'')"] g
  show ?thesis by simp
qed

text \<open>
  Claim C9: the memory cell is \<open>None\<close> or an entry of the catalog: this holds at the start,
  every call of \<open>get_bot_response\<close> preserves it (also a call that raises), and so it holds
  after any sequence of calls.
\<close>

theorem last_book_always_catalog_entry:
  "memory_ok E None
   \<and> (memory_ok E mem \<longrightarrow> memory_ok E (snd (get_bot_response E rnd msg mem)))
   \<and> memory_ok E (memory_after E calls None)"
proof -
  have n: "memory_ok E None" by (simp add: memory_ok_def)
  from n have "memory_ok E (memory_after E calls None)" by (rule memory_after_ok)
  with n get_bot_response_memory_ok show ?thesis by blast
qed

theorem last_book_always_catalog_entry_witness:
  "memory_ok (sample_env ''author'') (Some (sample_book ''Dune''))
   \<and> memory_ok (sample_env ''author'') (snd (get_bot_response (sample_env ''author'') 0 (lit ''who wrote Dune'') (Some (sample_book ''Dune''))))
   \<and> memory_ok (sample_env ''author'') (memory_after (sample_env ''author'') [(0, lit ''who wrote Dune''), (1, lit ''?'')] None)"
proof -
  have h: "memory_ok (sample_env ''author'') (Some (sample_book ''Dune''))"
    by (simp add: memory_ok_def sample_env_simps)
  from last_book_always_catalog_entry [of "sample_env ''author''" "Some (sample_book ''Dune'')" 0
      "lit ''who wrote Dune''" "[(0, lit ''who wrote Dune''), (1, lit ''?'')]"] h
  show ?thesis by simp
qed

section \<open>The index and the article tier: claims C7, C10\<close>

lemma length_lit: "length (lit s) = length s"
  by (simp add: lit_def)







lemma article_match_None:
  "\<not> (length art < length s \<and> take (length art) s = art \<and> is_space U (s ! length art))
   \<Longrightarrow> article_match U art s = None"
  by (auto simp: article_match_def Let_def hd_drop_conv_nth)

lemma strip_article_id: "\<not> starts_with_article U s \<Longrightarrow> strip_article U s = s"
  by (simp add: starts_with_article_def strip_article_def article_match_None)

text \<open>
  Claim C10: when the normalized message does not begin with \<open>the\<close>, \<open>a\<close> or \<open>an\<close>
  followed by whitespace, stripping the article leaves it as it is, so the last tier
  repeats the query of the tier before it, and the book finder returns what it would
  return without its last tier.
\<close>

theorem article_tier_only_matters_after_article:
  assumes "\<not> starts_with_article U (normalize_text U message)"
  shows "strip_article U (normalize_text U message) = normalize_text U message
         \<and> find_book_in_message U D books message = find_book_without_article_tier U D books message"
proof -
  have s: "strip_article U (normalize_text U message) = normalize_text U message"
    using assms by (rule strip_article_id)
  have "find_book_in_message U D books message = find_book_without_article_tier U D books message"
    by (simp add: find_book_in_message_def find_book_without_article_tier_def Let_def s
        split: option.splits sum.splits)
  with s show ?thesis by simp
qed

lemma no_article_dune: "\<not> starts_with_article U (lit ''dune'')"
  by (simp add: starts_with_article_def lit_def)

theorem article_tier_only_matters_after_article_witness:
  "\<not> starts_with_article ascii_only (normalize_text ascii_only (lit ''dune''))
   \<and> strip_article ascii_only (normalize_text ascii_only (lit ''dune'')) = lit ''dune''
   \<and> find_book_in_message ascii_only length_matcher [sample_book ''Dune''] (lit ''dune'')
       = find_book_without_article_tier ascii_only length_matcher [sample_book ''Dune''] (lit ''dune'')"
proof -
  have h: "\<not> starts_with_article ascii_only (normalize_text ascii_only (lit ''dune''))"
    by (simp add: normalize_dune no_article_dune)
  from article_tier_only_matters_after_article [OF h, of length_matcher "[sample_book ''Dune'']"] h
  show ?thesis by (simp add: normalize_dune)
qed

section \<open>The approximate tiers: claim C4\<close>

text \<open>What the regular expression of the last tier removes: the article and the whitespace after it.\<close>

lemma dropWhile_spaces_then:
  "\<forall>c \<in> set ws. P c \<Longrightarrow> rest = [] \<or> \<not> P (hd rest) \<Longrightarrow> dropWhile P (ws @ rest) = rest"
  by (cases rest) (auto simp: dropWhile_append)

lemma article_match_strips:
  assumes "ws \<noteq> []" "\<forall>c \<in> set ws. is_space U c" "rest = [] \<or> \<not> is_space U (hd rest)"
  shows "article_match U art (art @ ws @ rest) = Some rest"
proof -
  from assms(1,2) have "is_space U (hd (ws @ rest))" by (cases ws) auto
  moreover have "dropWhile (is_space U) (ws @ rest) = rest"
    using assms(2,3) by (rule dropWhile_spaces_then)
  ultimately show ?thesis using assms(1) by (simp add: article_match_def)
qed

lemma the_not_a: "article_match U (lit ''the'') (lit ''a'' @ t) = None"
  by (simp add: article_match_def lit_def)

lemma the_not_an: "article_match U (lit ''the'') (lit ''an'' @ t) = None"
  by (simp add: article_match_def lit_def)

lemma a_not_an: "article_match U (lit ''a'') (lit ''an'' @ t) = None"
  by (simp add: article_match_def lit_def is_space_def ascii_space_def)

lemma strip_article_strips:
  assumes "art \<in> set (map lit [''the'', ''a'', ''an''])"
    and "ws \<noteq> []" "\<forall>c \<in> set ws. is_space U c" "rest = [] \<or> \<not> is_space U (hd rest)"
  shows "strip_article U (art @ ws @ rest) = rest"
proof -
  have m: "article_match U art (art @ ws @ rest) = Some rest"
    using assms(2-4) by (rule article_match_strips)
  from assms(1) consider "art = lit ''the''" | "art = lit ''a''" | "art = lit ''an''" by auto
  then show ?thesis
  proof cases
    case 1
    with m show ?thesis by (simp add: strip_article_def)
  next
    case 2
    with m the_not_a [of U "ws @ rest"] show ?thesis by (simp add: strip_article_def)
  next
    case 3
    with m the_not_an [of U "ws @ rest"] a_not_an [of U "ws @ rest"] show ?thesis
      by (simp add: strip_article_def)
  qed
qed

text \<open>
  Claim C4: when the containment and equality tiers find nothing, the book finder
  searches the titles for the best close match of the normalized message and, if there is
  none, of the normalized message without its leading article; the result is that of the
  first of the two searches that finds an entry.  A returned entry has a normalized title
  whose \<open>ratio\<close> against the query reaches the cutoff (the floating-point value of
  \<open>0.73\<close>) and is greatest among the titles that pass; nothing is returned exactly when no
  title passes for either query.  The second query is the normalized message itself when it
  does not begin with an article; when it is \<open>the\<close>, \<open>a\<close> or \<open>an\<close>, then whitespace, then a
  rest, the second query is that rest, so exactly one article and the whitespace after it are
  taken off.
\<close>

theorem fuzzy_tiers_respect_cutoff:
  assumes "normalize_text U message \<noteq> []"
    and "containment_tier U (BOOK_TITLE_INDEX U books) (normalize_text U message) = None"
    and "equality_tier (BOOK_TITLE_INDEX U books) (normalize_text U message) = None"
  shows "(\<forall>b. find_book_in_message U D books message = Inr (Some b) \<longrightarrow>
            (\<exists>q nt. (q = normalize_text U message \<or> q = strip_article U (normalize_text U message))
               \<and> (nt, b) \<in> set (BOOK_TITLE_INDEX U books)
               \<and> cutoff \<le> ratio D nt q
               \<and> (\<forall>(nt', b') \<in> set (BOOK_TITLE_INDEX U books).
                     close_enough D q nt' \<longrightarrow> ratio D nt' q \<le> ratio D nt q)))
       \<and> find_book_in_message U D books message =
           (case fuzzy_tier D (BOOK_TITLE_INDEX U books) (normalize_text U message) of
              Inr None \<Rightarrow> fuzzy_tier D (BOOK_TITLE_INDEX U books) (strip_article U (normalize_text U message))
            | found \<Rightarrow> found)
       \<and> ((find_book_in_message U D books message = Inr None) =
           (\<forall>(nt, b) \<in> set (BOOK_TITLE_INDEX U books).
              \<not> close_enough D (normalize_text U message) nt
              \<and> \<not> close_enough D (strip_article U (normalize_text U message)) nt))
       \<and> (\<forall>art ws rest.
             art \<in> set (map lit [''the'', ''a'', ''an'']) \<and> ws \<noteq> [] \<and> (\<forall>c \<in> set ws. is_space U c)
             \<and> (rest = [] \<or> \<not> is_space U (hd rest))
             \<and> normalize_text U message = art @ ws @ rest \<longrightarrow>
             strip_article U (normalize_text U message) = rest
             \<and> (fuzzy_tier D (BOOK_TITLE_INDEX U books) (normalize_text U message) = Inr None \<longrightarrow>
                  find_book_in_message U D books message = fuzzy_tier D (BOOK_TITLE_INDEX U books) rest))
       \<and> (\<not> starts_with_article U (normalize_text U message) \<longrightarrow>
             strip_article U (normalize_text U message) = normalize_text U message)"
proof -
  let ?idx = "BOOK_TITLE_INDEX U books"
  let ?m = "normalize_text U message"
  let ?a = "strip_article U ?m"
  from assms(1) have ne: "message \<noteq> []" by (auto simp: normalize_text_def)
  have eq: "find_book_in_message U D books message =
      (case fuzzy_tier D ?idx ?m of Inr None \<Rightarrow> fuzzy_tier D ?idx ?a | found \<Rightarrow> found)"
    using ne assms by (simp add: find_book_in_message_def Let_def split: sum.splits option.splits)
  have some: "\<exists>q nt. (q = ?m \<or> q = ?a) \<and> (nt, b) \<in> set ?idx \<and> cutoff \<le> ratio D nt q
               \<and> (\<forall>(nt', b') \<in> set ?idx. close_enough D q nt' \<longrightarrow> ratio D nt' q \<le> ratio D nt q)"
    if "find_book_in_message U D books message = Inr (Some b)" for b
  proof -
    from that eq consider "fuzzy_tier D ?idx ?m = Inr (Some b)" | "fuzzy_tier D ?idx ?a = Inr (Some b)"
      by (auto split: sum.splits option.splits)
    then show ?thesis
    proof cases
      case 1
      from fuzzy_tier_Some [OF 1] obtain nt where "(nt, b) \<in> set ?idx" "close_enough D ?m nt"
        "\<forall>(nt', b') \<in> set ?idx. close_enough D ?m nt' \<longrightarrow> ratio D nt' ?m \<le> ratio D nt ?m"
        by blast
      then show ?thesis unfolding close_enough_def by blast
    next
      case 2
      from fuzzy_tier_Some [OF 2] obtain nt where "(nt, b) \<in> set ?idx" "close_enough D ?a nt"
        "\<forall>(nt', b') \<in> set ?idx. close_enough D ?a nt' \<longrightarrow> ratio D nt' ?a \<le> ratio D nt ?a"
        by blast
      then show ?thesis unfolding close_enough_def by blast
    qed
  qed
  have none: "(find_book_in_message U D books message = Inr None) =
      (\<forall>(nt, b) \<in> set ?idx. \<not> close_enough D ?m nt \<and> \<not> close_enough D ?a nt)"
  proof
    assume n: "find_book_in_message U D books message = Inr None"
    with eq have "fuzzy_tier D ?idx ?m = Inr None" "fuzzy_tier D ?idx ?a = Inr None"
      by (auto split: sum.splits option.splits)
    then show "\<forall>(nt, b) \<in> set ?idx. \<not> close_enough D ?m nt \<and> \<not> close_enough D ?a nt"
      using fuzzy_tier_None by blast
  next
    assume n: "\<forall>(nt, b) \<in> set ?idx. \<not> close_enough D ?m nt \<and> \<not> close_enough D ?a nt"
    have "fuzzy_tier D ?idx q = Inr None" if "\<forall>(nt, b) \<in> set ?idx. \<not> close_enough D q nt" for q
    proof (cases "fuzzy_tier D ?idx q")
      case (Inl e)
      then show ?thesis using fuzzy_tier_no_error by blast
    next
      case (Inr r)
      show ?thesis
      proof (cases r)
        case None
        with Inr show ?thesis by simp
      next
        case (Some b)
        with Inr have "fuzzy_tier D ?idx q = Inr (Some b)" by simp
        from fuzzy_tier_Some [OF this] that show ?thesis by blast
      qed
    qed
    from this [of ?m] this [of ?a] n have "fuzzy_tier D ?idx ?m = Inr None" "fuzzy_tier D ?idx ?a = Inr None"
      by blast+
    with eq show "find_book_in_message U D books message = Inr None" by simp
  qed
  have art: "strip_article U ?m = rest
      \<and> (fuzzy_tier D ?idx ?m = Inr None \<longrightarrow>
           find_book_in_message U D books message = fuzzy_tier D ?idx rest)"
    if "art \<in> set (map lit [''the'', ''a'', ''an''])" "ws \<noteq> []" "\<forall>c \<in> set ws. is_space U c"
      "rest = [] \<or> \<not> is_space U (hd rest)" "?m = art @ ws @ rest" for art ws rest
  proof -
    have "strip_article U (art @ ws @ rest) = rest" using that(1-4) by (rule strip_article_strips)
    with that(5) have s: "strip_article U ?m = rest" by simp
    with eq show ?thesis by simp
  qed
  have noart: "strip_article U ?m = ?m" if "\<not> starts_with_article U ?m"
    using that by (rule strip_article_id)
  from some eq none art noart show ?thesis by blast
qed

lemma normalize_dunes: "normalize_text U (lit ''dunes'') = lit ''dunes''"
  by (simp add: text_defs)

lemma search_it_dunes: "re_search U (lit ''it'') None (lit ''dunes'') = False"
  by (simp add: text_defs)

lemma search_it_ends_dunes: "re_search U (lit ''it ends with us'') None (lit ''dunes'') = False"
  by (simp add: text_defs)

lemma search_dune_dunes: "re_search U (lit ''dune'') None (lit ''dunes'') = False"
  by (simp add: text_defs)

lemma sample_containment_dunes:
  "containment_tier U [(lit ''it'', sample_book ''It''), (lit ''it ends with us'', sample_book ''It Ends with Us''),
      (lit ''dune'', sample_book ''Dune'')] (lit ''dunes'') = None"
  by (simp add: containment_tier_def containment_candidates_def sort_desc_def
      search_it_dunes search_it_ends_dunes search_dune_dunes lit_Nil_iff)

lemma sample_equality_dunes:
  "equality_tier [(lit ''it'', sample_book ''It''), (lit ''it ends with us'', sample_book ''It Ends with Us''),
      (lit ''dune'', sample_book ''Dune'')] (lit ''dunes'') = None"
  by (simp add: equality_tier_def lit_def)

lemma score_dune_dunes: "length_score (lit ''dune'') (lit ''dunes'') = 8 / 9"
  by (simp add: length_score_def lit_def)

lemma score_it_dunes: "length_score (lit ''it'') (lit ''dunes'') = 4 / 7"
  by (simp add: length_score_def lit_def)

lemma score_it_ends_dunes: "length_score (lit ''it ends with us'') (lit ''dunes'') = 1 / 2"
  by (simp add: length_score_def lit_def)

lemma sample_close_dunes:
  "get_close_matches length_matcher (lit ''dunes'') [lit ''it'', lit ''it ends with us'', lit ''dune''] = [lit ''dune'']"
  by (simp add: get_close_matches_def close_enough_def length_matcher_def py_max_def cutoff_def
      score_dune_dunes score_it_dunes score_it_ends_dunes)

lemma sample_fuzzy_dunes:
  "fuzzy_tier length_matcher [(lit ''it'', sample_book ''It''), (lit ''it ends with us'', sample_book ''It Ends with Us''),
      (lit ''dune'', sample_book ''Dune'')] (lit ''dunes'') = Inr (Some (sample_book ''Dune''))"
  by (simp add: fuzzy_tier_def sample_close_dunes) (simp add: lit_def)

lemma normalize_the_dunes: "normalize_text U (lit ''the dunes'') = lit ''the dunes''"
  by (simp add: text_defs)

lemma the_dunes_split: "lit ''the dunes'' = lit ''the'' @ [32] @ lit ''dunes''"
  by (simp add: lit_def)

lemma strip_the_dunes: "strip_article U (lit ''the dunes'') = lit ''dunes''"
  by (simp add: text_defs)

lemma dune_index: "BOOK_TITLE_INDEX U [sample_book ''Dune''] = [(lit ''dune'', sample_book ''Dune'')]"
  by (simp add: BOOK_TITLE_INDEX_def sample_book_def title_Dune)

lemma search_dune_the_dunes: "re_search U (lit ''dune'') None (lit ''the dunes'') = False"
  by (simp add: text_defs)

lemma dune_containment_the_dunes:
  "containment_tier U [(lit ''dune'', sample_book ''Dune'')] (lit ''the dunes'') = None"
  by (simp add: containment_tier_def containment_candidates_def search_dune_the_dunes lit_Nil_iff)

lemma dune_equality_the_dunes:
  "equality_tier [(lit ''dune'', sample_book ''Dune'')] (lit ''the dunes'') = None"
  by (simp add: equality_tier_def lit_def)

lemma score_dune_the_dunes: "length_score (lit ''dune'') (lit ''the dunes'') = 8 / 13"
  by (simp add: length_score_def lit_def)

lemma dune_fuzzy_the_dunes:
  "fuzzy_tier length_matcher [(lit ''dune'', sample_book ''Dune'')] (lit ''the dunes'') = Inr None"
  by (simp add: fuzzy_tier_def get_close_matches_def close_enough_def length_matcher_def py_max_def
      cutoff_def score_dune_the_dunes)

lemma dune_fuzzy_dunes:
  "fuzzy_tier length_matcher [(lit ''dune'', sample_book ''Dune'')] (lit ''dunes'') = Inr (Some (sample_book ''Dune''))"
  by (simp add: fuzzy_tier_def get_close_matches_def close_enough_def length_matcher_def py_max_def
      cutoff_def score_dune_dunes)

lemma no_article_dunes: "\<not> starts_with_article U (lit ''dunes'')"
  by (simp add: starts_with_article_def lit_def)

theorem fuzzy_tiers_respect_cutoff_witness:
  "normalize_text ascii_only (lit ''dunes'') \<noteq> []
   \<and> containment_tier ascii_only
        (BOOK_TITLE_INDEX ascii_only [sample_book ''It'', sample_book ''It Ends with Us'', sample_book ''Dune''])
        (normalize_text ascii_only (lit ''dunes'')) = None
   \<and> equality_tier
        (BOOK_TITLE_INDEX ascii_only [sample_book ''It'', sample_book ''It Ends with Us'', sample_book ''Dune''])
        (normalize_text ascii_only (lit ''dunes'')) = None
   \<and> find_book_in_message ascii_only length_matcher
        [sample_book ''It'', sample_book ''It Ends with Us'', sample_book ''Dune''] (lit ''dunes'')
      = Inr (Some (sample_book ''Dune''))
   \<and> cutoff \<le> ratio length_matcher (lit ''dune'') (lit ''dunes'')
   \<and> normalize_text ascii_only (lit ''the dunes'') = lit ''the'' @ [32] @ lit ''dunes''
   \<and> containment_tier ascii_only (BOOK_TITLE_INDEX ascii_only [sample_book ''Dune''])
        (normalize_text ascii_only (lit ''the dunes'')) = None
   \<and> equality_tier (BOOK_TITLE_INDEX ascii_only [sample_book ''Dune''])
        (normalize_text ascii_only (lit ''the dunes'')) = None
   \<and> fuzzy_tier length_matcher (BOOK_TITLE_INDEX ascii_only [sample_book ''Dune''])
        (normalize_text ascii_only (lit ''the dunes'')) = Inr None
   \<and> strip_article ascii_only (normalize_text ascii_only (lit ''the dunes'')) = lit ''dunes''
   \<and> find_book_in_message ascii_only length_matcher [sample_book ''Dune''] (lit ''the dunes'')
      = Inr (Some (sample_book ''Dune''))
   \<and> \<not> starts_with_article ascii_only (normalize_text ascii_only (lit ''dunes''))"
proof -
  have h1: "normalize_text ascii_only (lit ''dunes'') \<noteq> []"
    by (simp add: normalize_dunes lit_Nil_iff)
  have h2: "containment_tier ascii_only
        (BOOK_TITLE_INDEX ascii_only [sample_book ''It'', sample_book ''It Ends with Us'', sample_book ''Dune''])
        (normalize_text ascii_only (lit ''dunes'')) = None"
    by (simp add: normalize_dunes sample_index sample_containment_dunes)
  have h3: "equality_tier
        (BOOK_TITLE_INDEX ascii_only [sample_book ''It'', sample_book ''It Ends with Us'', sample_book ''Dune''])
        (normalize_text ascii_only (lit ''dunes'')) = None"
    by (simp add: normalize_dunes sample_index sample_equality_dunes)
  have r: "cutoff \<le> ratio length_matcher (lit ''dune'') (lit ''dunes'')"
    by (simp add: length_matcher_def score_dune_dunes cutoff_def)
  have na: "\<not> starts_with_article ascii_only (normalize_text ascii_only (lit ''dunes''))"
    by (simp add: normalize_dunes no_article_dunes)
  have first: "find_book_in_message ascii_only length_matcher
        [sample_book ''It'', sample_book ''It Ends with Us'', sample_book ''Dune''] (lit ''dunes'')
      = Inr (Some (sample_book ''Dune''))"
    using fuzzy_tiers_respect_cutoff [OF h1 h2 h3, of length_matcher]
    by (simp add: normalize_dunes sample_index sample_fuzzy_dunes)
  have g1: "normalize_text ascii_only (lit ''the dunes'') \<noteq> []"
    by (simp add: normalize_the_dunes lit_Nil_iff)
  have g2: "containment_tier ascii_only (BOOK_TITLE_INDEX ascii_only [sample_book ''Dune''])
        (normalize_text ascii_only (lit ''the dunes'')) = None"
    by (simp add: normalize_the_dunes dune_index dune_containment_the_dunes)
  have g3: "equality_tier (BOOK_TITLE_INDEX ascii_only [sample_book ''Dune''])
        (normalize_text ascii_only (lit ''the dunes'')) = None"
    by (simp add: normalize_the_dunes dune_index dune_equality_the_dunes)
  have split: "normalize_text ascii_only (lit ''the dunes'') = lit ''the'' @ [32] @ lit ''dunes''"
    unfolding normalize_the_dunes by (rule the_dunes_split)
  have t3: "fuzzy_tier length_matcher (BOOK_TITLE_INDEX ascii_only [sample_book ''Dune''])
        (normalize_text ascii_only (lit ''the dunes'')) = Inr None"
    by (simp add: normalize_the_dunes dune_index dune_fuzzy_the_dunes)
  have p1: "lit ''the'' \<in> set (map lit [''the'', ''a'', ''an''])" by simp
  have p2: "[32::nat] \<noteq> []" by simp
  have p3: "\<forall>c \<in> set [32]. is_space ascii_only c" by (simp add: is_space_def ascii_space_def)
  have p4: "lit ''dunes'' = [] \<or> \<not> is_space ascii_only (hd (lit ''dunes''))"
    by (simp add: lit_def is_space_def ascii_space_def)
  have pre: "lit ''the'' \<in> set (map lit [''the'', ''a'', ''an'']) \<and> [32::nat] \<noteq> []
      \<and> (\<forall>c \<in> set [32]. is_space ascii_only c)
      \<and> (lit ''dunes'' = [] \<or> \<not> is_space ascii_only (hd (lit ''dunes'')))
      \<and> normalize_text ascii_only (lit ''the dunes'') = lit ''the'' @ [32] @ lit ''dunes''"
    by (intro conjI p1 p2 p3 p4 split)
  note second = fuzzy_tiers_respect_cutoff [OF g1 g2 g3, of length_matcher,
      THEN conjunct2, THEN conjunct2, THEN conjunct2, THEN conjunct1, rule_format, OF pre]
  from second have s1: "strip_article ascii_only (normalize_text ascii_only (lit ''the dunes'')) = lit ''dunes''"
    by (rule conjunct1)
  from second [THEN conjunct2, THEN mp, OF t3]
  have found: "find_book_in_message ascii_only length_matcher [sample_book ''Dune''] (lit ''the dunes'')
      = Inr (Some (sample_book ''Dune''))"
    by (simp add: dune_index dune_fuzzy_dunes)
  show ?thesis by (intro conjI h1 h2 h3 first r split g2 g3 t3 s1 found na)
qed

section \<open>Facts about the containment tier\<close>

lemma first_opt_drop: "first_opt (drop i s) = char_at s i"
  by (cases "i < length s") (simp_all add: first_opt_def char_at_def Cons_nth_drop_Suc [symmetric])

lemma take_eq_length: "take (length p) t = p \<Longrightarrow> length p \<le> length t"
  by (metis length_take min.cobounded1 min.commute)

lemma last_slice:
  assumes "take (length p) (drop i s) = p" "p \<noteq> []"
  shows "s ! (i + length p - 1) = last p"
proof -
  from assms have n: "length p - 1 < length p" by (cases p) auto
  have "last p = p ! (length p - 1)" using assms(2) by (simp add: last_conv_nth)
  also have "\<dots> = take (length p) (drop i s) ! (length p - 1)" using assms(1) by simp
  also have "\<dots> = drop i s ! (length p - 1)" using n by simp
  also have "\<dots> = s ! (i + (length p - 1))"
    using take_eq_length [OF assms(1)] n by (simp add: nth_drop)
  finally show ?thesis using n by simp
qed

lemma match_at_occurs:
  "i \<le> length s \<Longrightarrow> match_at U p (char_before s i) (drop i s) = occurs_at U p s i"
proof -
  assume i: "i \<le> length s"
  show ?thesis
  proof (cases "take (length p) (drop i s) = p")
    case False
    then show ?thesis by (simp add: match_at_def occurs_at_def)
  next
    case True
    from take_eq_length [OF True] i have len: "i + length p \<le> length s" by simp
    have before: "(if p = [] then char_before s i else Some (last p)) = char_before s (i + length p)"
    proof (cases "p = []")
      case True
      then show ?thesis by simp
    next
      case False
      with last_slice [OF True False] show ?thesis by (simp add: char_before_def)
    qed
    show ?thesis
      using True len
      by (simp add: match_at_def occurs_at_def first_opt_drop before add.commute)
  qed
qed

lemma re_search_from:
  "i \<le> length s \<Longrightarrow>
     re_search U p (char_before s i) (drop i s) = (\<exists>j. i \<le> j \<and> j \<le> length s \<and> occurs_at U p s j)"
proof (induction "length s - i" arbitrary: i)
  case 0
  then have i: "i = length s" by simp
  have "re_search U p (char_before s i) (drop i s) = match_at U p (char_before s i) (drop i s)"
    using i by simp
  also have "\<dots> = occurs_at U p s i" by (rule match_at_occurs) (simp add: i)
  finally show ?case using i by auto
next
  case (Suc n)
  then have i: "i < length s" by simp
  have d: "drop i s = s ! i # drop (Suc i) s" using i by (simp add: Cons_nth_drop_Suc)
  have cb: "Some (s ! i) = char_before s (Suc i)" by (simp add: char_before_def)
  have ih: "re_search U p (char_before s (Suc i)) (drop (Suc i) s)
      = (\<exists>j. Suc i \<le> j \<and> j \<le> length s \<and> occurs_at U p s j)"
    using Suc.hyps(1) [of "Suc i"] Suc.hyps(2) i by simp
  have "re_search U p (char_before s i) (drop i s)
      = (match_at U p (char_before s i) (drop i s) \<or> re_search U p (char_before s (Suc i)) (drop (Suc i) s))"
  proof -
    have "re_search U p (char_before s i) (s ! i # drop (Suc i) s)
        = (match_at U p (char_before s i) (s ! i # drop (Suc i) s)
           \<or> re_search U p (Some (s ! i)) (drop (Suc i) s))"
      by (rule re_search.simps(2))
    then show ?thesis unfolding d [symmetric] cb .
  qed
  also have "\<dots> = (occurs_at U p s i \<or> (\<exists>j. Suc i \<le> j \<and> j \<le> length s \<and> occurs_at U p s j))"
    using i ih by (simp add: match_at_occurs)
  also have "\<dots> = (\<exists>j. i \<le> j \<and> j \<le> length s \<and> occurs_at U p s j)"
  proof
    assume "occurs_at U p s i \<or> (\<exists>j. Suc i \<le> j \<and> j \<le> length s \<and> occurs_at U p s j)"
    then show "\<exists>j. i \<le> j \<and> j \<le> length s \<and> occurs_at U p s j"
    proof
      assume "occurs_at U p s i"
      with i show ?thesis by (intro exI [of _ i]) simp
    next
      assume "\<exists>j. Suc i \<le> j \<and> j \<le> length s \<and> occurs_at U p s j"
      then obtain j where "Suc i \<le> j" "j \<le> length s" "occurs_at U p s j" by blast
      then show ?thesis by (intro exI [of _ j]) simp
    qed
  next
    assume "\<exists>j. i \<le> j \<and> j \<le> length s \<and> occurs_at U p s j"
    then obtain j where j: "i \<le> j" "j \<le> length s" "occurs_at U p s j" by blast
    show "occurs_at U p s i \<or> (\<exists>j. Suc i \<le> j \<and> j \<le> length s \<and> occurs_at U p s j)"
    proof (cases "j = i")
      case True
      with j show ?thesis by simp
    next
      case False
      with j have "Suc i \<le> j" by simp
      with j show ?thesis by blast
    qed
  qed
  finally show ?case .
qed

lemma re_search_occurs: "re_search U p None s = occurs_word_bounded U p s"
proof -
  have "re_search U p (char_before s 0) (drop 0 s) = (\<exists>j. 0 \<le> j \<and> j \<le> length s \<and> occurs_at U p s j)"
    by (rule re_search_from) simp
  then show ?thesis
    by (auto simp del: upt_Suc simp: char_before_def occurs_word_bounded_def less_Suc_eq_le)
qed

lemma candidates_title_matches:
  "containment_candidates U idx m = map (\<lambda>(nt, b). (length nt, b)) (title_matches U idx m)"
  by (simp add: containment_candidates_def title_matches_def re_search_occurs)

lemma hd_filter_index:
  "filter P xs \<noteq> [] \<Longrightarrow> \<exists>i<length xs. xs ! i = hd (filter P xs) \<and> (\<forall>j<i. \<not> P (xs ! j))"
proof (induction xs)
  case Nil
  then show ?case by simp
next
  case (Cons x xs)
  show ?case
  proof (cases "P x")
    case True
    then show ?thesis by (intro exI [of _ 0]) simp
  next
    case False
    with Cons.prems have "filter P xs \<noteq> []" by simp
    from Cons.IH [OF this] obtain i where i: "i < length xs" "xs ! i = hd (filter P xs)"
      "\<forall>j<i. \<not> P (xs ! j)" by blast
    have "\<forall>j<Suc i. \<not> P ((x # xs) ! j)"
      using False i(3) by (auto simp: nth_Cons split: nat.splits)
    with i False show ?thesis by (intro exI [of _ "Suc i"]) simp
  qed
qed

lemma hd_sort_key_least:
  fixes f :: "'a \<Rightarrow> int"
  assumes "xs \<noteq> []"
  shows "\<forall>y \<in> set xs. f (hd (sort_key f xs)) \<le> f y"
proof -
  let ?ys = "sort_key f xs"
  from assms have "length ?ys \<noteq> 0" by simp
  then obtain h t where ys: "?ys = h # t" by (cases ?ys) auto
  have "sorted (map f ?ys)" by (rule sorted_sort_key)
  then have "\<forall>y \<in> set t. f h \<le> f y" using ys by simp
  then have "\<forall>y \<in> set (h # t). f h \<le> f y" by simp
  then have "\<forall>y \<in> set ?ys. f h \<le> f y" unfolding ys .
  then have "\<forall>y \<in> set xs. f h \<le> f y" by simp
  then show ?thesis unfolding ys by simp
qed

lemma hd_sort_key_first:
  fixes f :: "'a \<Rightarrow> int"
  assumes "xs \<noteq> []"
  shows "hd (sort_key f xs) = hd (filter (\<lambda>y. f y = f (hd (sort_key f xs))) xs)"
proof -
  let ?ys = "sort_key f xs"
  from assms have "length ?ys \<noteq> 0" by simp
  then obtain h t where ys: "?ys = h # t" by (cases ?ys) auto
  have "filter (\<lambda>y. f y = f h) xs = filter (\<lambda>y. f y = f h) ?ys"
    by (rule sort_key_stable [symmetric])
  also have "\<dots> = h # filter (\<lambda>y. f y = f h) t" using ys by simp
  finally show ?thesis using ys by simp
qed

lemma sort_desc_head:
  assumes "cs \<noteq> []"
  shows "\<exists>i<length cs. hd (sort_desc cs) = cs ! i
           \<and> (\<forall>j<length cs. fst (cs ! j) \<le> fst (cs ! i))
           \<and> (\<forall>j<i. fst (cs ! j) < fst (cs ! i))"
proof -
  let ?f = "\<lambda>x::nat \<times> book. - int (fst x)"
  let ?h = "hd (sort_desc cs)"
  have least: "\<forall>y \<in> set cs. ?f ?h \<le> ?f y"
    unfolding sort_desc_def using assms by (rule hd_sort_key_least)
  have first: "?h = hd (filter (\<lambda>y. ?f y = ?f ?h) cs)"
    unfolding sort_desc_def using assms by (rule hd_sort_key_first)
  have "?h \<in> set cs" using assms by (rule sort_desc_hd_mem)
  then have "filter (\<lambda>y. ?f y = ?f ?h) cs \<noteq> []" by (auto simp: filter_empty_conv)
  from hd_filter_index [OF this] obtain i where i: "i < length cs"
    "cs ! i = hd (filter (\<lambda>y. ?f y = ?f ?h) cs)" "\<forall>j<i. ?f (cs ! j) \<noteq> ?f ?h" by blast
  from i(2) first have eq: "cs ! i = ?h" by simp
  have a: "\<forall>j<length cs. fst (cs ! j) \<le> fst (cs ! i)"
  proof (intro allI impI)
    fix j assume "j < length cs"
    then have "cs ! j \<in> set cs" by simp
    with least have "?f ?h \<le> ?f (cs ! j)" by blast
    then show "fst (cs ! j) \<le> fst (cs ! i)" using eq by simp
  qed
  have b: "\<forall>j<i. fst (cs ! j) < fst (cs ! i)"
  proof (intro allI impI)
    fix j assume j: "j < i"
    with i(1) have "j < length cs" by simp
    with a have "fst (cs ! j) \<le> fst (cs ! i)" by blast
    moreover from j i(3) have "fst (cs ! j) \<noteq> fst (cs ! i)" using eq by simp
    ultimately show "fst (cs ! j) < fst (cs ! i)" by simp
  qed
  from i(1) eq a b show ?thesis by metis
qed

lemma title_matches_nonempty_msg: "title_matches U idx m \<noteq> [] \<Longrightarrow> m \<noteq> []"
proof -
  assume "title_matches U idx m \<noteq> []"
  then obtain nt b where "(nt, b) \<in> set (title_matches U idx m)"
    by (cases "title_matches U idx m") auto
  then have "nt \<noteq> []" "occurs_word_bounded U nt m" by (auto simp: title_matches_def)
  then obtain i where "i + length nt \<le> length m"
    by (auto simp: occurs_word_bounded_def occurs_at_def)
  with \<open>nt \<noteq> []\<close> show ?thesis by auto
qed

lemma containment_tier_longest:
  assumes "title_matches U idx m \<noteq> []"
  shows "\<exists>i<length (title_matches U idx m).
           containment_tier U idx m = Some (snd (title_matches U idx m ! i))
           \<and> (\<forall>j<length (title_matches U idx m).
                 length (fst (title_matches U idx m ! j)) \<le> length (fst (title_matches U idx m ! i)))
           \<and> (\<forall>j<i. length (fst (title_matches U idx m ! j)) < length (fst (title_matches U idx m ! i)))"
proof -
  let ?ms = "title_matches U idx m"
  let ?cs = "containment_candidates U idx m"
  have cs: "?cs = map (\<lambda>(nt, b). (length nt, b)) ?ms" by (rule candidates_title_matches)
  with assms have ne: "?cs \<noteq> []" by simp
  then have tier: "containment_tier U idx m = Some (snd (hd (sort_desc ?cs)))"
    by (simp add: containment_tier_def)
  from sort_desc_head [OF ne] obtain i where i: "i < length ?cs" "hd (sort_desc ?cs) = ?cs ! i"
    "\<forall>j<length ?cs. fst (?cs ! j) \<le> fst (?cs ! i)" "\<forall>j<i. fst (?cs ! j) < fst (?cs ! i)" by blast
  have len: "length ?cs = length ?ms" using cs by simp
  have nth: "fst (?cs ! j) = length (fst (?ms ! j)) \<and> snd (?cs ! j) = snd (?ms ! j)"
    if "j < length ?ms" for j
    using that cs by (simp add: case_prod_beta)
  have i': "i < length ?ms" using i(1) len by simp
  have "containment_tier U idx m = Some (snd (?ms ! i))" using tier i(2) nth [OF i'] by simp
  moreover have "\<forall>j<length ?ms. length (fst (?ms ! j)) \<le> length (fst (?ms ! i))"
    using i(3) len nth i' by metis
  moreover have "\<forall>j<i. length (fst (?ms ! j)) < length (fst (?ms ! i))"
  proof (intro allI impI)
    fix j assume j: "j < i"
    then have "j < length ?ms" using i' by simp
    from nth [OF this] nth [OF i'] i(4) j show "length (fst (?ms ! j)) < length (fst (?ms ! i))"
      by metis
  qed
  ultimately show ?thesis using i' by blast
qed

section \<open>The containment tier: claim C1\<close>

lemma two_book_index:
  "BOOK_TITLE_INDEX U [sample_book ''It'', sample_book ''It Ends with Us''] =
     [(lit ''it'', sample_book ''It''), (lit ''it ends with us'', sample_book ''It Ends with Us'')]"
  by (simp add: BOOK_TITLE_INDEX_def sample_book_def title_It title_It_Ends)

lemma normalize_it_ends: "normalize_text U (lit ''it ends with us'') = lit ''it ends with us''"
  by (simp add: text_defs)

lemma search_it_it_ends: "re_search U (lit ''it'') None (lit ''it ends with us'') = True"
  by (simp add: text_defs)

lemma search_it_ends_it_ends: "re_search U (lit ''it ends with us'') None (lit ''it ends with us'') = True"
  by (simp add: text_defs)

lemma two_book_matches:
  "title_matches U [(lit ''it'', sample_book ''It''), (lit ''it ends with us'', sample_book ''It Ends with Us'')]
     (lit ''it ends with us'')
   = [(lit ''it'', sample_book ''It''), (lit ''it ends with us'', sample_book ''It Ends with Us'')]"
  by (simp add: title_matches_def re_search_occurs [symmetric] search_it_it_ends search_it_ends_it_ends lit_Nil_iff)

lemma two_book_containment:
  "containment_tier U [(lit ''it'', sample_book ''It''), (lit ''it ends with us'', sample_book ''It Ends with Us'')]
     (lit ''it ends with us'') = Some (sample_book ''It Ends with Us'')"
  by (simp add: containment_tier_def containment_candidates_def sort_desc_def
      search_it_it_ends search_it_ends_it_ends lit_Nil_iff length_lit)

lemma two_book_find:
  "find_book_in_message U D [sample_book ''It'', sample_book ''It Ends with Us''] (lit ''it ends with us'')
     = Inr (Some (sample_book ''It Ends with Us''))"
  by (simp add: find_book_in_message_def normalize_it_ends two_book_index two_book_containment lit_Nil_iff)

text \<open>
  Claim C1: the containment tier works on the list of all entries whose non-empty
  normalized title occurs in the normalized message between word boundaries, in catalog
  order.  When that list is not empty, the book finder returns one of its entries whose
  normalized title is at least as long as every other one in it and strictly longer than all
  those before it, that is, the first of the longest; when it is empty, the tier returns
  nothing.  With the titles \<open>It\<close> and \<open>It Ends with Us\<close> in the catalog, the message
  \<open>it ends with us\<close> resolves to \<open>It Ends with Us\<close>.
\<close>

theorem containment_longest_first:
  "(title_matches U (BOOK_TITLE_INDEX U books) (normalize_text U message) \<noteq> [] \<longrightarrow>
      (\<exists>i<length (title_matches U (BOOK_TITLE_INDEX U books) (normalize_text U message)).
         find_book_in_message U D books message
           = Inr (Some (snd (title_matches U (BOOK_TITLE_INDEX U books) (normalize_text U message) ! i)))
         \<and> (\<forall>j<length (title_matches U (BOOK_TITLE_INDEX U books) (normalize_text U message)).
               length (fst (title_matches U (BOOK_TITLE_INDEX U books) (normalize_text U message) ! j))
               \<le> length (fst (title_matches U (BOOK_TITLE_INDEX U books) (normalize_text U message) ! i)))
         \<and> (\<forall>j<i. length (fst (title_matches U (BOOK_TITLE_INDEX U books) (normalize_text U message) ! j))
               < length (fst (title_matches U (BOOK_TITLE_INDEX U books) (normalize_text U message) ! i)))))
   \<and> (title_matches U (BOOK_TITLE_INDEX U books) (normalize_text U message) = [] \<longrightarrow>
        containment_tier U (BOOK_TITLE_INDEX U books) (normalize_text U message) = None)
   \<and> find_book_in_message U D [sample_book ''It'', sample_book ''It Ends with Us''] (lit ''it ends with us'')
       = Inr (Some (sample_book ''It Ends with Us''))"
proof -
  let ?idx = "BOOK_TITLE_INDEX U books"
  let ?m = "normalize_text U message"
  let ?ms = "title_matches U ?idx ?m"
  have a: "\<exists>i<length ?ms. find_book_in_message U D books message = Inr (Some (snd (?ms ! i)))
         \<and> (\<forall>j<length ?ms. length (fst (?ms ! j)) \<le> length (fst (?ms ! i)))
         \<and> (\<forall>j<i. length (fst (?ms ! j)) < length (fst (?ms ! i)))"
    if ne: "?ms \<noteq> []"
  proof -
    from title_matches_nonempty_msg [OF ne] have m: "?m \<noteq> []" .
    then have msg: "message \<noteq> []" by (auto simp: normalize_text_def)
    from containment_tier_longest [OF ne] obtain i where i: "i < length ?ms"
      "containment_tier U ?idx ?m = Some (snd (?ms ! i))"
      "\<forall>j<length ?ms. length (fst (?ms ! j)) \<le> length (fst (?ms ! i))"
      "\<forall>j<i. length (fst (?ms ! j)) < length (fst (?ms ! i))" by blast
    have "find_book_in_message U D books message = Inr (Some (snd (?ms ! i)))"
      using m msg i(2) by (simp add: find_book_in_message_def Let_def)
    with i show ?thesis by blast
  qed
  have b: "containment_tier U ?idx ?m = None" if "?ms = []"
    using that by (simp add: containment_tier_def candidates_title_matches)
  from a b two_book_find show ?thesis by blast
qed

theorem containment_longest_first_witness:
  "title_matches ascii_only (BOOK_TITLE_INDEX ascii_only [sample_book ''It'', sample_book ''It Ends with Us''])
      (normalize_text ascii_only (lit ''it ends with us''))
     = [(lit ''it'', sample_book ''It''), (lit ''it ends with us'', sample_book ''It Ends with Us'')]
   \<and> find_book_in_message ascii_only length_matcher [sample_book ''It'', sample_book ''It Ends with Us'']
        (lit ''it ends with us'') = Inr (Some (sample_book ''It Ends with Us''))
   \<and> title_matches ascii_only (BOOK_TITLE_INDEX ascii_only [sample_book ''It'', sample_book ''It Ends with Us''])
        (normalize_text ascii_only (lit ''dune'')) = []
   \<and> containment_tier ascii_only (BOOK_TITLE_INDEX ascii_only [sample_book ''It'', sample_book ''It Ends with Us''])
        (normalize_text ascii_only (lit ''dune'')) = None"
proof -
  have ms: "title_matches ascii_only (BOOK_TITLE_INDEX ascii_only [sample_book ''It'', sample_book ''It Ends with Us''])
      (normalize_text ascii_only (lit ''it ends with us''))
     = [(lit ''it'', sample_book ''It''), (lit ''it ends with us'', sample_book ''It Ends with Us'')]"
    by (simp add: two_book_index normalize_it_ends two_book_matches)
  have none: "title_matches ascii_only (BOOK_TITLE_INDEX ascii_only [sample_book ''It'', sample_book ''It Ends with Us''])
        (normalize_text ascii_only (lit ''dune'')) = []"
    by (simp add: two_book_index normalize_dune title_matches_def re_search_occurs [symmetric]
        search_it_dune search_it_ends_dune)
  from containment_longest_first [of ascii_only "[sample_book ''It'', sample_book ''It Ends with Us'']"
      "lit ''it ends with us''" length_matcher]
    containment_longest_first [of ascii_only "[sample_book ''It'', sample_book ''It Ends with Us'']"
      "lit ''dune''" length_matcher]
    ms none
  show ?thesis by simp
qed

section \<open>Facts about normalization\<close>

lemma space_32: "is_space U 32"
  by (simp add: is_space_def ascii_space_def)

lemma collapse_ws_Nil_iff: "(collapse_ws U s = []) = (s = [])"
  by (cases s) auto

lemma hd_collapse_ws: "s \<noteq> [] \<Longrightarrow> \<not> is_space U (hd s) \<Longrightarrow> hd (collapse_ws U s) = hd s"
  by (cases s) auto

lemma collapse_ws_single: "single_spaced U (collapse_ws U s)"
proof (induction U s rule: collapse_ws.induct)
  case (1 U)
  then show ?case by simp
next
  case (2 U c cs)
  show ?case
  proof (cases "is_space U c")
    case True
    let ?r = "dropWhile (is_space U) cs"
    have "collapse_ws U ?r = [] \<or> \<not> is_space U (hd (collapse_ws U ?r))"
    proof (cases "?r = []")
      case True
      then have "collapse_ws U ?r = []" by (simp only: collapse_ws.simps)
      then show ?thesis by (rule disjI1)
    next
      case False
      then have "\<not> is_space U (hd ?r)" by (rule hd_dropWhile)
      with False show ?thesis by (simp add: hd_collapse_ws)
    qed
    with True 2 show ?thesis by (simp add: space_32)
  next
    case False
    with 2 show ?thesis by simp
  qed
qed

lemma single_spaced_fix: "single_spaced U s \<Longrightarrow> collapse_ws U s = s"
proof (induction s)
  case Nil
  then show ?case by simp
next
  case (Cons c cs)
  then have ih: "collapse_ws U cs = cs" by simp
  show ?case
  proof (cases "is_space U c")
    case True
    with Cons.prems have c: "c = 32" and nxt: "cs = [] \<or> \<not> is_space U (hd cs)" by auto
    from nxt have "dropWhile (is_space U) cs = cs" by (cases cs) auto
    with True c ih show ?thesis by simp
  next
    case False
    with ih show ?thesis by simp
  qed
qed

lemma single_spaced_append:
  "single_spaced U (xs @ ys) \<Longrightarrow> single_spaced U xs \<and> single_spaced U ys"
proof (induction xs)
  case Nil
  then show ?case by simp
next
  case (Cons c xs)
  then have ih: "single_spaced U xs \<and> single_spaced U ys" by simp
  have "xs = [] \<or> \<not> is_space U (hd xs)" if "is_space U c"
  proof (cases xs)
    case Nil
    then show ?thesis by simp
  next
    case (Cons x xs')
    with that Cons.prems show ?thesis by (simp split: if_splits)
  qed
  with Cons.prems ih show ?case by (simp split: if_splits)
qed

lemma strip_ws_decomp:
  "\<exists>pre post. s = pre @ strip_ws U s @ post"
proof -
  let ?P = "is_space U"
  let ?z = "dropWhile ?P s"
  have "rev (takeWhile ?P (rev ?z) @ dropWhile ?P (rev ?z)) = ?z"
    by (simp only: takeWhile_dropWhile_id rev_rev_ident)
  then have z: "?z = rev (dropWhile ?P (rev ?z)) @ rev (takeWhile ?P (rev ?z))"
    by (simp only: rev_append)
  have "s = takeWhile ?P s @ ?z" by simp
  also have "?z = strip_ws U s @ rev (takeWhile ?P (rev ?z))" using z by (simp only: strip_ws_def)
  finally have "s = takeWhile ?P s @ strip_ws U s @ rev (takeWhile ?P (rev ?z))" .
  then show ?thesis by blast
qed

lemma strip_ws_single: "single_spaced U s \<Longrightarrow> single_spaced U (strip_ws U s)"
proof -
  assume a: "single_spaced U s"
  from strip_ws_decomp obtain pre post where "s = pre @ strip_ws U s @ post" by blast
  with a have "single_spaced U (pre @ strip_ws U s @ post)" by simp
  then show ?thesis using single_spaced_append by blast
qed

lemma set_strip_ws: "c \<in> set (strip_ws U s) \<Longrightarrow> c \<in> set s"
proof -
  assume a: "c \<in> set (strip_ws U s)"
  from strip_ws_decomp obtain pre post where d: "s = pre @ strip_ws U s @ post" by blast
  have "c \<in> set (pre @ strip_ws U s @ post)" using a by simp
  with d show ?thesis by simp
qed

lemma strip_ws_head: "strip_ws U s \<noteq> [] \<Longrightarrow> \<not> is_space U (hd (strip_ws U s))"
proof -
  let ?P = "is_space U"
  let ?z = "dropWhile ?P s"
  let ?t = "strip_ws U s"
  assume ne: "?t \<noteq> []"
  have "rev (takeWhile ?P (rev ?z) @ dropWhile ?P (rev ?z)) = ?z"
    by (simp only: takeWhile_dropWhile_id rev_rev_ident)
  then have "?z = rev (dropWhile ?P (rev ?z)) @ rev (takeWhile ?P (rev ?z))"
    by (simp only: rev_append)
  then have z: "?z = ?t @ rev (takeWhile ?P (rev ?z))" by (simp only: strip_ws_def)
  then obtain post where z': "?z = ?t @ post" by blast
  from z' ne have zne: "?z \<noteq> []" by (metis append_is_Nil_conv)
  from z' ne have "hd ?z = hd ?t" by (metis hd_append2)
  moreover from zne have "\<not> ?P (hd ?z)" by (rule hd_dropWhile)
  ultimately show ?thesis by simp
qed

lemma strip_ws_fix: "strip_ws U (strip_ws U s) = strip_ws U s"
proof -
  let ?P = "is_space U"
  let ?t = "strip_ws U s"
  have front: "dropWhile ?P ?t = ?t"
  proof (cases "?t = []")
    case True
    then show ?thesis by simp
  next
    case False
    from strip_ws_head [OF False] False show ?thesis by (cases ?t) auto
  qed
  have "rev ?t = dropWhile ?P (rev (dropWhile ?P s))" by (simp add: strip_ws_def)
  then have rear: "dropWhile ?P (rev ?t) = rev ?t" by (simp add: dropWhile_idem)
  have "strip_ws U ?t = rev (dropWhile ?P (rev (dropWhile ?P ?t)))" by (simp add: strip_ws_def)
  also have "\<dots> = rev (dropWhile ?P (rev ?t))" by (simp only: front)
  also have "\<dots> = rev (rev ?t)" by (simp only: rear)
  finally show ?thesis by simp
qed

lemma replace_char_mem:
  "c \<in> set (replace_char a b s) \<Longrightarrow> (c \<in> set s \<and> c \<noteq> a) \<or> (c = b \<and> a \<noteq> b) \<or> (c = b \<and> c \<in> set s)"
  by (auto simp: replace_char_def split: if_splits)

lemma set_strip_smart_quotes:
  assumes "c \<in> set (strip_smart_quotes s)"
  shows "c \<notin> smart_quotes \<and> (c \<in> set s \<or> c \<in> {0x27, 0x22, 0x2D})"
proof -
  let ?s1 = "replace_char 0x2019 0x27 s"
  let ?s2 = "replace_char 0x2018 0x27 ?s1"
  let ?s3 = "replace_char 0x201C 0x22 ?s2"
  let ?s4 = "replace_char 0x201D 0x22 ?s3"
  let ?s5 = "replace_char 0x2013 0x2D ?s4"
  let ?s6 = "replace_char 0x2014 0x2D ?s5"
  from assms have m6: "c \<in> set ?s6" by (simp only: strip_smart_quotes_def)
  from replace_char_mem [OF m6] have c6: "c \<noteq> 0x2014" and m5: "c \<in> set ?s5 \<or> c = 0x2D" by auto
  show ?thesis
  proof (cases "c = 0x2D \<or> c = 0x22 \<or> c = 0x27")
    case True
    then show ?thesis by (auto simp: smart_quotes_def)
  next
    case False
    with m5 have m5': "c \<in> set ?s5" by simp
    from replace_char_mem [OF m5'] False have c5: "c \<noteq> 0x2013" and m4: "c \<in> set ?s4" by auto
    from replace_char_mem [OF m4] False have c4: "c \<noteq> 0x201D" and m3: "c \<in> set ?s3" by auto
    from replace_char_mem [OF m3] False have c3: "c \<noteq> 0x201C" and m2: "c \<in> set ?s2" by auto
    from replace_char_mem [OF m2] False have c2: "c \<noteq> 0x2018" and m1: "c \<in> set ?s1" by auto
    from replace_char_mem [OF m1] False have c1: "c \<noteq> 0x2019" and m0: "c \<in> set s" by auto
    from c1 c2 c3 c4 c5 c6 m0 show ?thesis by (simp add: smart_quotes_def)
  qed
qed

lemma replace_char_absent: "a \<notin> set s \<Longrightarrow> replace_char a b s = s"
  by (induction s) (auto simp: replace_char_def)

lemma strip_smart_quotes_fix: "set t \<inter> smart_quotes = {} \<Longrightarrow> strip_smart_quotes t = t"
  by (simp add: strip_smart_quotes_def smart_quotes_def replace_char_absent)

lemma set_collapse_ws:
  "c \<in> set (collapse_ws U s) \<Longrightarrow> c = 32 \<or> (c \<in> set s \<and> \<not> is_space U c)"
proof (induction U s rule: collapse_ws.induct)
  case (1 U)
  then show ?case by simp
next
  case (2 U x xs)
  show ?case
  proof (cases "is_space U x")
    case True
    with 2 show ?thesis by (auto dest: set_dropWhileD)
  next
    case False
    with 2 show ?thesis by auto
  qed
qed

lemma set_punct_to_space:
  "c \<in> set (punct_to_space U s) \<Longrightarrow> c = 32 \<or> (c \<in> set s \<and> (is_word U c \<or> is_space U c))"
  by (auto simp: punct_to_space_def split: if_splits)

lemma quote_not_word: "c \<in> {0x27, 0x22, 0x2D} \<Longrightarrow> \<not> is_word U c"
  by (auto simp: is_word_def ascii_word_def)

lemma ascii_lower_fixed: "c < 128 \<Longrightarrow> lower_fixed U (ascii_lower c)"
  by (auto simp: lower_fixed_def ascii_lower_def)

lemma set_py_lower:
  assumes "lower_stable U" "c \<in> set (py_lower U s)"
  shows "lower_fixed U c"
proof -
  from assms(2) obtain i where i: "i < length s" "c \<in> set (lower_at U s i)"
    by (auto simp: py_lower_def)
  show ?thesis
  proof (cases "s ! i < 128")
    case True
    with i(2) have "c = ascii_lower (s ! i)" by (simp add: lower_at_def)
    with True show ?thesis by (simp add: ascii_lower_fixed)
  next
    case False
    with i(2) have "c \<in> set (uni_lower U s i)" by (simp add: lower_at_def)
    moreover from False have "128 \<le> s ! i" by simp
    ultimately show ?thesis using assms(1) i(1) unfolding lower_stable_def by blast
  qed
qed

lemma py_lower_fixed:
  assumes "\<forall>c \<in> set t. lower_fixed U c"
  shows "py_lower U t = t"
proof -
  have "lower_at U t i = [t ! i]" if "i < length t" for i
  proof -
    from that assms have f: "lower_fixed U (t ! i)" by simp
    show ?thesis
    proof (cases "t ! i < 128")
      case True
      with f show ?thesis by (simp add: lower_at_def lower_fixed_def)
    next
      case False
      with f that have "uni_lower U t i = [t ! i]" by (simp add: lower_fixed_def)
      with False show ?thesis by (simp add: lower_at_def)
    qed
  qed
  then have "map (lower_at U t) [0..<length t] = map (\<lambda>i. [t ! i]) [0..<length t]"
    by (intro map_cong) simp_all
  then have "py_lower U t = concat (map (\<lambda>i. [t ! i]) [0..<length t])" by (simp only: py_lower_def)
  also have "\<dots> = map (\<lambda>i. t ! i) [0..<length t]" by (rule concat_map_singleton)
  also have "\<dots> = t" by (rule map_nth)
  finally show ?thesis .
qed

section \<open>Normalization is idempotent: claim C6\<close>

lemma normalize_text_chars:
  assumes "c \<in> set (normalize_text U s)"
  shows "c = 32 \<or> (c \<in> set (py_lower U s) \<and> c \<notin> smart_quotes \<and> is_word U c \<and> \<not> is_space U c)"
proof (cases "c = 32")
  case True
  then show ?thesis by simp
next
  case False
  let ?q = "strip_smart_quotes (py_lower U s)"
  from assms have ne: "s \<noteq> []" by (auto simp: normalize_text_def split: if_splits)
  with assms have "c \<in> set (strip_ws U (collapse_ws U (punct_to_space U ?q)))"
    by (simp add: normalize_text_def)
  then have "c \<in> set (collapse_ws U (punct_to_space U ?q))" by (rule set_strip_ws)
  from set_collapse_ws [OF this] False
  have p: "c \<in> set (punct_to_space U ?q)" and nsp: "\<not> is_space U c" by auto
  from set_punct_to_space [OF p] False nsp have q: "c \<in> set ?q" and w: "is_word U c" by auto
  from set_strip_smart_quotes [OF q]
  have nq: "c \<notin> smart_quotes" and l: "c \<in> set (py_lower U s) \<or> c \<in> {0x27, 0x22, 0x2D}" by auto
  from w quote_not_word have "c \<notin> {0x27, 0x22, 0x2D}" by blast
  with l have "c \<in> set (py_lower U s)" by blast
  with nq w nsp show ?thesis by blast
qed

lemma lower_fixed_32: "lower_fixed U 32"
  by (simp add: lower_fixed_def ascii_lower_def)

lemma space_not_smart: "32 \<notin> smart_quotes"
  by (simp add: smart_quotes_def)

lemma punct_to_space_fix: "\<forall>c \<in> set t. is_word U c \<or> is_space U c \<Longrightarrow> punct_to_space U t = t"
  by (induction t) (auto simp: punct_to_space_def)

lemma normalize_text_single: "single_spaced U (normalize_text U s)"
proof (cases "s = []")
  case True
  then show ?thesis by (simp add: normalize_text_def)
next
  case False
  have "single_spaced U (strip_ws U (collapse_ws U (punct_to_space U (strip_smart_quotes (py_lower U s)))))"
    by (rule strip_ws_single) (rule collapse_ws_single)
  with False show ?thesis by (simp add: normalize_text_def)
qed

lemma normalize_text_stripped: "strip_ws U (normalize_text U s) = normalize_text U s"
proof (cases "s = []")
  case True
  then show ?thesis by (simp add: normalize_text_def strip_ws_def)
next
  case False
  then show ?thesis by (simp add: normalize_text_def strip_ws_fix)
qed

text \<open>
  Claim C6: \<open>normalize_text\<close> is idempotent.  The function reads nothing but its
  argument and the character tables and writes nothing, which is what makes it a function
  here.  Idempotence needs of the tables that lowercasing is stable: a code point produced
  by lowercasing a non-ASCII code point is its own lowercase form.  On ASCII input nothing is
  needed.
\<close>

theorem normalize_text_idempotent:
  assumes "lower_stable U"
  shows "normalize_text U (normalize_text U s) = normalize_text U s"
proof -
  let ?t = "normalize_text U s"
  have chars: "c = 32 \<or> (lower_fixed U c \<and> c \<notin> smart_quotes \<and> is_word U c)" if "c \<in> set ?t" for c
    using normalize_text_chars [OF that] set_py_lower [OF assms] by blast
  have low: "py_lower U ?t = ?t"
  proof (rule py_lower_fixed)
    show "\<forall>c \<in> set ?t. lower_fixed U c" using chars lower_fixed_32 by blast
  qed
  have quo: "strip_smart_quotes ?t = ?t"
  proof (rule strip_smart_quotes_fix)
    show "set ?t \<inter> smart_quotes = {}" using chars space_not_smart by blast
  qed
  have pun: "punct_to_space U ?t = ?t"
  proof (rule punct_to_space_fix)
    show "\<forall>c \<in> set ?t. is_word U c \<or> is_space U c" using chars space_32 by blast
  qed
  have col: "collapse_ws U ?t = ?t"
    by (rule single_spaced_fix) (rule normalize_text_single)
  have str: "strip_ws U ?t = ?t" by (rule normalize_text_stripped)
  show ?thesis
  proof (cases "?t = []")
    case True
    then show ?thesis by (simp add: normalize_text_def)
  next
    case False
    have "normalize_text U ?t
        = strip_ws U (collapse_ws U (punct_to_space U (strip_smart_quotes (py_lower U ?t))))"
      using False by (simp add: normalize_text_def [of U ?t])
    also have "\<dots> = ?t" by (simp only: low quo pun col str)
    finally show ?thesis .
  qed
qed

lemma ascii_only_stable: "lower_stable ascii_only"
  by (simp add: lower_stable_def lower_fixed_def ascii_only_def)

lemma normalize_hobbit: "normalize_text U (lit ''  The Hobbit:  There and Back Again! '') = lit ''the hobbit there and back again''"
  by (simp add: text_defs)

theorem normalize_text_idempotent_witness:
  "lower_stable ascii_only
   \<and> normalize_text ascii_only (lit ''  The Hobbit:  There and Back Again! '') = lit ''the hobbit there and back again''
   \<and> normalize_text ascii_only (normalize_text ascii_only (lit ''  The Hobbit:  There and Back Again! ''))
       = lit ''the hobbit there and back again''"
  using normalize_text_idempotent [OF ascii_only_stable, of "lit ''  The Hobbit:  There and Back Again! ''"]
  by (simp add: ascii_only_stable normalize_hobbit)

section \<open>The helper-phrase stripper: claim C5\<close>

lemma lowered_give_me: "strip_smart_quotes (py_lower U (lit ''give me the summary of Dune'')) = lit ''give me the summary of dune''"
  by (simp add: text_defs)

lemma search_give_me:
  "re_search U (lit ''give me the summary of'') None (lit ''give me the summary of dune'') = True"
  by (simp add: text_defs)

lemma clean_give_me: "clean_query_from_helpers U (lit ''give me the summary of Dune'') = lit ''give me the dune''"
  by (simp add: text_defs)

lemma give_me_listed: "lit ''give me the summary of'' \<in> set HELPER_PHRASES"
  by (simp add: HELPER_PHRASES_def)

text \<open>
  Claim C5 says that every occurrence of each helper phrase between word boundaries is
  removed.  The phrases are removed one after the other in the order of the list, and
  \<open>summary of\<close> stands before \<open>give me the summary of\<close>: the longer phrase is in the list
  and occurs between word boundaries in the lowercased message, but once the shorter one
  is cut out it no longer matches, and \<open>give me the\<close> stays in the result.
\<close>

theorem shadowed_helper_phrase_left_behind:
  "lit ''give me the summary of'' \<in> set HELPER_PHRASES
   \<and> occurs_word_bounded U (lit ''give me the summary of'')
        (strip_smart_quotes (py_lower U (lit ''give me the summary of Dune'')))
   \<and> clean_query_from_helpers U (lit ''give me the summary of Dune'') = lit ''give me the dune''"
  by (simp add: give_me_listed lowered_give_me re_search_occurs [symmetric] search_give_me clean_give_me)

end
